theory Spec2Isabelle
  imports Complex_Main "HOL-Library.AList"
begin

section \<open>JavaScript strings and errors\<close>

text \<open>
  Identifiers, error messages and JSON texts are JavaScript strings, modelled as
  \<^typ>\<open>string\<close>. \<open>startsWith\<close>, \<open>str_includes\<close> (the method \<open>includes\<close>) and \<open>join\<close> are the string
  methods the service and the controller call.
\<close>

fun startsWith :: "string \<Rightarrow> string \<Rightarrow> bool" where
  "startsWith s [] = True"
| "startsWith [] (c # cs) = False"
| "startsWith (x # xs) (c # cs) = (x = c \<and> startsWith xs cs)"

fun str_includes :: "string \<Rightarrow> string \<Rightarrow> bool" where
  "str_includes [] sub = (sub = [])"
| "str_includes (x # xs) sub = (startsWith (x # xs) sub \<or> str_includes xs sub)"

fun join :: "string \<Rightarrow> string list \<Rightarrow> string" where
  "join sep [] = []"
| "join sep [x] = x"
| "join sep (x # y # ys) = x @ sep @ join sep (y # ys)"

text \<open>
  A thrown value: \<open>Error m\<close> is \<open>new Error(m)\<close>; \<open>TypeError\<close> is the engine's
  error for reading a property of \<open>undefined\<close>; \<open>RangeError\<close> is the engine's
  error for an exhausted call stack.
\<close>

datatype js_error = Error string | TypeError | RangeError

fun error_message :: "js_error \<Rightarrow> string" where
  "error_message (Error m) = m"
| "error_message TypeError = ''Cannot read properties of undefined''"
| "error_message RangeError = ''Maximum call stack size exceeded''"

section \<open>Data model (src/types/index.ts)\<close>

datatype DependencyType =
  FINISH_TO_START | START_TO_START | FINISH_TO_FINISH | START_TO_FINISH

text \<open>A \<open>Date\<close> is its number of milliseconds since the epoch; a JSON value is its text.\<close>

type_synonym date = int
type_synonym json = string

record Dependency =
  dep_id :: string
  tenant_id :: string
  from_id :: string
  to_id :: string
  dependency_type :: DependencyType
  lag_days :: int
  created_at :: date
  created_by :: string
  updated_at :: date
  metadata :: json

record CreateDependencyRequest =
  req_from_id :: string
  req_to_id :: string
  req_dependency_type :: DependencyType
  req_lag_days :: "int option"
  req_metadata :: "json option"

text \<open>An absent (\<open>undefined\<close>) field of the patch is \<open>None\<close>.\<close>

record UpdateDependencyRequest =
  upd_dependency_type :: "DependencyType option"
  upd_lag_days :: "int option"
  upd_metadata :: "json option"

record User =
  user_id :: string
  email :: string
  user_tenant_id :: string
  roles :: "string list"

text \<open>The columns of \<open>work_items\<close> that the service reads.\<close>

record WorkItem =
  wi_id :: string
  wi_tenant_id :: string
  wi_type :: string
  wi_title :: string
  wi_status :: string
  estimated_duration_days :: "int option"

record CycleDetectionResult =
  has_cycles :: bool
  cycles :: "string list list"
  affected_work_items :: "string list"
  resolution_suggestions :: "string list"

section \<open>The store and the message queue\<close>

text \<open>
  What \<open>messageQueue.publish(exchange, routingKey, message)\<close> sends: the recalculation
  request of \<open>schedulePathRecalculation\<close>, or a mutation event with its \<open>data\<close>.
\<close>

datatype event_data =
  Snapshot Dependency
| BeforeAfter Dependency "Dependency option" UpdateDependencyRequest

datatype payload =
  Recalculate string date
| DependencyEvent string string string string event_data date

datatype message = Publish string string payload

text \<open>
  The world a call runs in: the two tables and the messages published so far.
  Rows are kept in insertion order.
\<close>

record world =
  work_items :: "WorkItem list"
  dependency_edges :: "Dependency list"
  published :: "message list"

type_synonym 'a outcome = "(js_error + 'a) \<times> world"

text \<open>
  \<open>DatabaseService.transaction\<close>: BEGIN, run the callback, COMMIT; when the callback
  throws, ROLLBACK restores both tables and the error is thrown again. Published
  messages are not part of the transaction.
\<close>

definition transaction :: "(world \<Rightarrow> 'a outcome) \<Rightarrow> world \<Rightarrow> 'a outcome" where
  "transaction callback w =
     (case callback w of
        (Inl e, w') \<Rightarrow>
          (Inl e, w'\<lparr>work_items := work_items w, dependency_edges := dependency_edges w\<rparr>)
      | (Inr x, w') \<Rightarrow> (Inr x, w'))"

definition publish :: "string \<Rightarrow> string \<Rightarrow> payload \<Rightarrow> world \<Rightarrow> world" where
  "publish exchange routingKey msg w =
     w\<lparr>published := published w @ [Publish exchange routingKey msg]\<rparr>"

definition schedulePathRecalculation :: "string \<Rightarrow> date \<Rightarrow> world \<Rightarrow> world" where
  "schedulePathRecalculation tenantId now w =
     publish ''system'' ''critical_path.recalculate'' (Recalculate tenantId now) w"

section \<open>Edge lifecycle (DependencyService)\<close>

text \<open>
  \<open>validateWorkItemsExist\<close>: SELECT the ids of the tenant's work items among
  \<open>workItemIds\<close>, then throw when one of \<open>workItemIds\<close> was not found.
\<close>

definition validateWorkItemsExist :: "User \<Rightarrow> string list \<Rightarrow> world \<Rightarrow> js_error + unit" where
  "validateWorkItemsExist user workItemIds w =
     (let foundIds = map wi_id (filter (\<lambda>r. wi_tenant_id r = user_tenant_id user
                                          \<and> wi_id r \<in> set workItemIds) (work_items w));
          missingIds = filter (\<lambda>i. i \<notin> set foundIds) workItemIds
      in if length missingIds > 0
         then Inl (Error (''WORK_ITEMS_NOT_FOUND: '' @ join '', '' missingIds))
         else Inr ())"

text \<open>
  The recursive query of \<open>wouldCreateCycle\<close>. A row of \<open>dependency_path\<close> is
  \<open>(from_id, to_id, depth)\<close>. \<open>path_base\<close> is the non-recursive term, \<open>path_step\<close>
  the recursive term applied to the working table. The working table is empty after
  at most 20 rounds, because a row of depth 20 joins nothing (\<open>dp.depth < 20\<close>).
\<close>

type_synonym path_row = "string \<times> string \<times> nat"

definition path_base :: "Dependency list \<Rightarrow> string \<Rightarrow> string \<Rightarrow> path_row list" where
  "path_base edges tenantId start =
     map (\<lambda>de. (from_id de, to_id de, 1))
       (filter (\<lambda>de. tenant_id de = tenantId \<and> from_id de = start) edges)"

definition path_step :: "Dependency list \<Rightarrow> string \<Rightarrow> path_row list \<Rightarrow> path_row list" where
  "path_step edges tenantId working =
     concat (map (\<lambda>dp. case dp of (f, t, depth) \<Rightarrow>
        map (\<lambda>de. (from_id de, to_id de, depth + 1))
          (filter (\<lambda>de. from_id de = t \<and> tenant_id de = tenantId \<and> depth < 20) edges))
        working)"

primrec path_rounds :: "nat \<Rightarrow> Dependency list \<Rightarrow> string \<Rightarrow> path_row list \<Rightarrow> path_row list" where
  "path_rounds 0 edges tenantId working = []"
| "path_rounds (Suc k) edges tenantId working =
     working @ path_rounds k edges tenantId (path_step edges tenantId working)"

definition dependency_path :: "Dependency list \<Rightarrow> string \<Rightarrow> string \<Rightarrow> path_row list" where
  "dependency_path edges tenantId start =
     path_rounds 20 edges tenantId (path_base edges tenantId start)"

definition would_cycle :: "Dependency list \<Rightarrow> string \<Rightarrow> string \<Rightarrow> string \<Rightarrow> bool" where
  "would_cycle edges tenantId start target =
     (filter (\<lambda>r. fst (snd r) = target) (dependency_path edges tenantId start) \<noteq> [])"

definition wouldCreateCycle :: "string \<Rightarrow> string \<Rightarrow> string \<Rightarrow> world \<Rightarrow> CycleDetectionResult" where
  "wouldCreateCycle tenantId fromId toId w =
     (let wouldCycle = would_cycle (dependency_edges w) tenantId toId fromId
      in \<lparr> has_cycles = wouldCycle,
           cycles = (if wouldCycle then [[toId, fromId]] else []),
           affected_work_items = (if wouldCycle then [fromId, toId] else []),
           resolution_suggestions =
             (if wouldCycle then [''Remove existing path or choose different dependency'']
              else []) \<rparr>)"

definition getDependencyById :: "User \<Rightarrow> string \<Rightarrow> world \<Rightarrow> Dependency option" where
  "getDependencyById user dependencyId w =
     (case filter (\<lambda>d. dep_id d = dependencyId \<and> tenant_id d = user_tenant_id user)
             (dependency_edges w) of
        [] \<Rightarrow> None
      | d # _ \<Rightarrow> Some d)"

text \<open>
  \<open>createDependency\<close>. \<open>dependencyId\<close> is the value of \<open>uuidv4()\<close> and \<open>now\<close> the
  value of \<open>new Date()\<close> in this call; the clock is read as one value per call, also
  for the timestamps of the published messages. Ids are taken to be well-formed
  UUIDs, so the casts \<open>$2::uuid[]\<close> succeed.
\<close>

definition createDependency_callback ::
  "User \<Rightarrow> CreateDependencyRequest \<Rightarrow> string \<Rightarrow> date \<Rightarrow> world \<Rightarrow> Dependency outcome" where
  "createDependency_callback user data dependencyId now w =
     (case validateWorkItemsExist user [req_from_id data, req_to_id data] w of
        Inl e \<Rightarrow> (Inl e, w)
      | Inr _ \<Rightarrow>
         (let cycleCheck = wouldCreateCycle (user_tenant_id user) (req_from_id data) (req_to_id data) w
          in if has_cycles cycleCheck then
               (case cycles cycleCheck of
                  [] \<Rightarrow> (Inl TypeError, w)
                | c # _ \<Rightarrow>
                   (Inl (Error (''CYCLE_DETECTED: Creating this dependency would create a cycle: ''
                                @ join '' -> '' c)), w))
             else if length (filter (\<lambda>d. tenant_id d = user_tenant_id user
                                   \<and> from_id d = req_from_id data
                                   \<and> to_id d = req_to_id data) (dependency_edges w)) > 0 then
               (Inl (Error ''DUPLICATE_DEPENDENCY: Dependency already exists between these work items''), w)
             else
               (let dependency = \<lparr> dep_id = dependencyId,
                                   tenant_id = user_tenant_id user,
                                   from_id = req_from_id data,
                                   to_id = req_to_id data,
                                   dependency_type = req_dependency_type data,
                                   lag_days = (case req_lag_days data of None \<Rightarrow> 0 | Some l \<Rightarrow> l),
                                   created_at = now,
                                   created_by = user_id user,
                                   updated_at = now,
                                   metadata = (case req_metadata data of None \<Rightarrow> ''{}'' | Some m \<Rightarrow> m) \<rparr>;
                    w1 = w\<lparr>dependency_edges := dependency_edges w @ [dependency]\<rparr>;
                    w2 = schedulePathRecalculation (user_tenant_id user) now w1;
                    w3 = publish ''dependencies'' ''dependency.created''
                           (DependencyEvent ''created'' dependencyId (user_tenant_id user)
                              (user_id user) (Snapshot dependency) now) w2
                in (Inr dependency, w3))))"

definition createDependency ::
  "User \<Rightarrow> CreateDependencyRequest \<Rightarrow> string \<Rightarrow> date \<Rightarrow> world \<Rightarrow> Dependency outcome" where
  "createDependency user data dependencyId now =
     transaction (createDependency_callback user data dependencyId now)"

text \<open>
  \<open>updateDependency\<close>. The UPDATE statement sets the fields of the patch and
  \<open>updated_at\<close> on the rows with this id and tenant, and returns them; the call
  returns \<open>rows[0]\<close>, which is \<open>undefined\<close> (\<open>None\<close>) when no row matched.
\<close>

definition apply_patch :: "UpdateDependencyRequest \<Rightarrow> date \<Rightarrow> Dependency \<Rightarrow> Dependency" where
  "apply_patch data now d =
     (let d1 = (case upd_dependency_type data of None \<Rightarrow> d | Some t \<Rightarrow> d\<lparr>dependency_type := t\<rparr>);
          d2 = (case upd_lag_days data of None \<Rightarrow> d1 | Some l \<Rightarrow> d1\<lparr>lag_days := l\<rparr>);
          d3 = (case upd_metadata data of None \<Rightarrow> d2 | Some m \<Rightarrow> d2\<lparr>metadata := m\<rparr>)
      in d3\<lparr>updated_at := now\<rparr>)"

definition updates :: "UpdateDependencyRequest \<Rightarrow> string list" where
  "updates data =
     (case upd_dependency_type data of None \<Rightarrow> [] | Some _ \<Rightarrow> [''dependency_type''])
     @ (case upd_lag_days data of None \<Rightarrow> [] | Some _ \<Rightarrow> [''lag_days''])
     @ (case upd_metadata data of None \<Rightarrow> [] | Some _ \<Rightarrow> [''metadata''])"

definition updateDependency_callback ::
  "User \<Rightarrow> string \<Rightarrow> UpdateDependencyRequest \<Rightarrow> date \<Rightarrow> world \<Rightarrow> Dependency option outcome" where
  "updateDependency_callback user dependencyId data now w =
     (case getDependencyById user dependencyId w of
        None \<Rightarrow> (Inl (Error ''DEPENDENCY_NOT_FOUND''), w)
      | Some existing \<Rightarrow>
         if length (updates data) = 0 then (Inr (Some existing), w)
         else
           (let hit = (\<lambda>d. dep_id d = dependencyId \<and> tenant_id d = user_tenant_id user);
                rows = map (apply_patch data now) (filter hit (dependency_edges w));
                w1 = w\<lparr>dependency_edges :=
                        map (\<lambda>d. if hit d then apply_patch data now d else d) (dependency_edges w)\<rparr>;
                updatedDependency = (case rows of [] \<Rightarrow> None | r # _ \<Rightarrow> Some r);
                w2 = schedulePathRecalculation (user_tenant_id user) now w1;
                w3 = publish ''dependencies'' ''dependency.updated''
                       (DependencyEvent ''updated'' dependencyId (user_tenant_id user)
                          (user_id user) (BeforeAfter existing updatedDependency data) now) w2
            in (Inr updatedDependency, w3)))"

definition updateDependency ::
  "User \<Rightarrow> string \<Rightarrow> UpdateDependencyRequest \<Rightarrow> date \<Rightarrow> world \<Rightarrow> Dependency option outcome" where
  "updateDependency user dependencyId data now =
     transaction (updateDependency_callback user dependencyId data now)"

definition deleteDependency_callback :: "User \<Rightarrow> string \<Rightarrow> date \<Rightarrow> world \<Rightarrow> unit outcome" where
  "deleteDependency_callback user dependencyId now w =
     (case getDependencyById user dependencyId w of
        None \<Rightarrow> (Inl (Error ''DEPENDENCY_NOT_FOUND''), w)
      | Some existing \<Rightarrow>
         (let w1 = w\<lparr>dependency_edges :=
                      filter (\<lambda>d. \<not> (dep_id d = dependencyId \<and> tenant_id d = user_tenant_id user))
                        (dependency_edges w)\<rparr>;
              w2 = schedulePathRecalculation (user_tenant_id user) now w1;
              w3 = publish ''dependencies'' ''dependency.deleted''
                     (DependencyEvent ''deleted'' dependencyId (user_tenant_id user)
                        (user_id user) (Snapshot existing) now) w2
          in (Inr (), w3)))"

definition deleteDependency :: "User \<Rightarrow> string \<Rightarrow> date \<Rightarrow> world \<Rightarrow> unit outcome" where
  "deleteDependency user dependencyId now =
     transaction (deleteDependency_callback user dependencyId now)"

section \<open>HTTP boundary (DependencyController)\<close>

record response =
  statusCode :: nat
  success :: bool
  errorCode :: "string option"
  message_text :: "string option"
  data_row :: "Dependency option"

text \<open>\<open>handleError\<close>: the first pattern found in the error's message decides.\<close>

definition handleError :: "js_error \<Rightarrow> string \<Rightarrow> response" where
  "handleError err message =
     (let m = error_message err;
          classified =
            (if str_includes m ''CYCLE_DETECTED'' then (409, ''CYCLE_DETECTED'')
             else if str_includes m ''NOT_FOUND'' then (404, ''NOT_FOUND'')
             else if str_includes m ''DUPLICATE_DEPENDENCY'' then (409, ''DUPLICATE_DEPENDENCY'')
             else if str_includes m ''WORK_ITEMS_NOT_FOUND'' then (400, ''WORK_ITEMS_NOT_FOUND'')
             else if str_includes m ''INVALID_'' then (400, ''INVALID_REQUEST'')
             else (500, ''INTERNAL_ERROR''))
      in \<lparr> statusCode = fst classified,
           success = False,
           errorCode = Some (snd classified),
           message_text = Some (if m \<noteq> [] then m else message),
           data_row = None \<rparr>)"

text \<open>
  The controller's \<open>createDependency\<close>: an empty \<open>from_id\<close> or \<open>to_id\<close> is falsy and
  answered with 400 (\<open>dependency_type\<close> is a value of the enumeration here, never
  falsy); otherwise the service is called and its error, if any, is classified by
  \<open>handleError\<close>.
\<close>

definition controller_createDependency ::
  "User \<Rightarrow> CreateDependencyRequest \<Rightarrow> string \<Rightarrow> date \<Rightarrow> world \<Rightarrow> response \<times> world" where
  "controller_createDependency user data dependencyId now w =
     (if req_from_id data = [] \<or> req_to_id data = [] then
        (\<lparr> statusCode = 400, success = False, errorCode = Some ''MISSING_REQUIRED_FIELDS'',
            message_text = Some ''from_id, to_id, and dependency_type are required'',
            data_row = None \<rparr>, w)
      else
        (case createDependency user data dependencyId now w of
           (Inr dependency, w') \<Rightarrow>
             (\<lparr> statusCode = 201, success = True, errorCode = None, message_text = None,
                 data_row = Some dependency \<rparr>, w')
         | (Inl e, w') \<Rightarrow> (handleError e ''Failed to create dependency'', w')))"

section \<open>JavaScript numbers and maps\<close>

text \<open>
  A JavaScript number is finite, an infinity, or NaN. Durations, lags and day offsets
  are integers (\<open>int js_number\<close>); the risk score is a fraction (\<open>real js_number\<close>),
  computed exactly. \<open>undefined\<close> in arithmetic behaves as NaN.
\<close>

datatype 'a js_number = NaN | NegInfinity | PosInfinity | Finite 'a

fun js_min :: "'a::linorder js_number \<Rightarrow> 'a js_number \<Rightarrow> 'a js_number" where
  "js_min NaN y = NaN"
| "js_min x NaN = NaN"
| "js_min NegInfinity y = NegInfinity"
| "js_min x NegInfinity = NegInfinity"
| "js_min PosInfinity y = y"
| "js_min x PosInfinity = x"
| "js_min (Finite a) (Finite b) = Finite (min a b)"

fun js_max :: "'a::linorder js_number \<Rightarrow> 'a js_number \<Rightarrow> 'a js_number" where
  "js_max NaN y = NaN"
| "js_max x NaN = NaN"
| "js_max PosInfinity y = PosInfinity"
| "js_max x PosInfinity = PosInfinity"
| "js_max NegInfinity y = y"
| "js_max x NegInfinity = x"
| "js_max (Finite a) (Finite b) = Finite (max a b)"

fun js_sub :: "'a::minus js_number \<Rightarrow> 'a js_number \<Rightarrow> 'a js_number" where
  "js_sub NaN y = NaN"
| "js_sub x NaN = NaN"
| "js_sub PosInfinity PosInfinity = NaN"
| "js_sub NegInfinity NegInfinity = NaN"
| "js_sub PosInfinity y = PosInfinity"
| "js_sub NegInfinity y = NegInfinity"
| "js_sub (Finite a) PosInfinity = NegInfinity"
| "js_sub (Finite a) NegInfinity = PosInfinity"
| "js_sub (Finite a) (Finite b) = Finite (a - b)"

definition js_div :: "real \<Rightarrow> real \<Rightarrow> real js_number" where
  "js_div a b =
     (if b = 0 then (if a = 0 then NaN else if 0 < a then PosInfinity else NegInfinity)
      else Finite (a / b))"

text \<open>\<open>Math.max(...xs)\<close>: \<open>-Infinity\<close> when there is no argument.\<close>

definition math_max :: "int list \<Rightarrow> int js_number" where
  "math_max xs = fold (\<lambda>x m. js_max m (Finite x)) xs NegInfinity"

text \<open>
  A JavaScript \<open>Map\<close> is an association list in insertion order: \<open>set\<close> is
  \<^const>\<open>AList.update\<close>, \<open>get\<close> is \<^const>\<open>map_of\<close>, \<open>values()\<close> is \<open>map snd\<close>.
\<close>

type_synonym ('k, 'v) js_map = "('k \<times> 'v) list"

section \<open>Graph builder\<close>

datatype js_date = Date int | InvalidDate

record GraphNode =
  node_id :: string
  title :: string
  node_type :: string
  status :: string
  duration_days :: int
  earliest_start :: "js_date option"
  earliest_finish :: "js_date option"
  latest_start :: "js_date option"
  latest_finish :: "js_date option"
  slack_days :: "int js_number option"
  is_critical :: bool

record GraphEdge =
  edge_id :: string
  e_from :: string
  e_to :: string
  e_type :: DependencyType
  e_lag_days :: int
  e_is_critical :: bool

record DependencyGraph =
  nodes :: "GraphNode list"
  edges :: "GraphEdge list"
  critical_path :: "string list"
  cycle_detected :: bool
  graph_cycles :: "string list list option"

definition estimateDuration :: "WorkItem \<Rightarrow> int" where
  "estimateDuration workItem =
     (if wi_type workItem = ''objective'' then 90
      else if wi_type workItem = ''strategy'' then 60
      else if wi_type workItem = ''initiative'' then 30
      else if wi_type workItem = ''task'' then 7
      else if wi_type workItem = ''subtask'' then 3
      else 7)"

text \<open>
  \<open>buildDependencyGraph\<close>: one node per work item, one edge per dependency row.
  \<open>estimated_duration_days || estimateDuration(item)\<close> takes the estimate when the
  column is absent or 0.
\<close>

definition buildDependencyGraph :: "WorkItem list \<Rightarrow> Dependency list \<Rightarrow> DependencyGraph" where
  "buildDependencyGraph workItems dependencies =
     \<lparr> nodes = map (\<lambda>item.
          \<lparr> node_id = wi_id item, title = wi_title item, node_type = wi_type item,
             status = wi_status item,
             duration_days = (case estimated_duration_days item of
                                None \<Rightarrow> estimateDuration item
                              | Some d \<Rightarrow> if d = 0 then estimateDuration item else d),
             earliest_start = None, earliest_finish = None, latest_start = None,
             latest_finish = None, slack_days = None, is_critical = False \<rparr>) workItems,
       edges = map (\<lambda>dep.
          \<lparr> edge_id = dep_id dep, e_from = from_id dep, e_to = to_id dep,
             e_type = dependency_type dep, e_lag_days = lag_days dep,
             e_is_critical = False \<rparr>) dependencies,
       critical_path = [],
       cycle_detected = False,
       graph_cycles = None \<rparr>"

section \<open>Critical path (calculateCriticalPath)\<close>

definition nodeMap :: "GraphNode list \<Rightarrow> (string, GraphNode) js_map" where
  "nodeMap ns = fold (\<lambda>n m. AList.update (node_id n) n m) ns []"

definition emptyAdjacency :: "GraphNode list \<Rightarrow> (string, string list) js_map" where
  "emptyAdjacency ns = fold (\<lambda>node m. AList.update (node_id node) [] m) ns []"

text \<open>\<open>adjacencyList.get(edge.from)?.push(edge.to)\<close>: nothing happens for an unknown key.\<close>

definition adjacencyList :: "DependencyGraph \<Rightarrow> (string, string list) js_map" where
  "adjacencyList g =
     fold (\<lambda>edge m. AList.map_entry (e_from edge) (\<lambda>l. l @ [e_to edge]) m)
       (edges g) (emptyAdjacency (nodes g))"

definition reverseAdjacencyList :: "DependencyGraph \<Rightarrow> (string, string list) js_map" where
  "reverseAdjacencyList g =
     fold (\<lambda>edge m. AList.map_entry (e_to edge) (\<lambda>l. l @ [e_from edge]) m)
       (edges g) (emptyAdjacency (nodes g))"

text \<open>What the closures \<open>forwardPass\<close> and \<open>backwardPass\<close> capture.\<close>

record cpm_env =
  env_nodeMap :: "(string, GraphNode) js_map"
  env_adjacencyList :: "(string, string list) js_map"
  env_reverseAdjacencyList :: "(string, string list) js_map"
  env_edges :: "GraphEdge list"

definition cpm_env_of :: "DependencyGraph \<Rightarrow> cpm_env" where
  "cpm_env_of g =
     \<lparr> env_nodeMap = nodeMap (nodes g),
       env_adjacencyList = adjacencyList g,
       env_reverseAdjacencyList = reverseAdjacencyList g,
       env_edges = edges g \<rparr>"

definition lag_of :: "GraphEdge list \<Rightarrow> string \<Rightarrow> string \<Rightarrow> int" where
  "lag_of es fromId toId =
     (case find (\<lambda>e. e_from e = fromId \<and> e_to e = toId) es of
        None \<Rightarrow> 0
      | Some edge \<Rightarrow> e_lag_days edge)"

record forward_state =
  earliestStart :: "(string, int) js_map"
  earliestFinish :: "(string, int) js_map"

text \<open>
  The loop over the predecessors inside \<open>forwardPass\<close>; \<open>recur\<close> is the recursive
  call. A thrown error leaves the loop.
\<close>

fun forward_loop ::
  "(string \<Rightarrow> forward_state \<Rightarrow> js_error + (int \<times> forward_state)) \<Rightarrow> GraphEdge list \<Rightarrow> string
   \<Rightarrow> string list \<Rightarrow> int \<Rightarrow> forward_state \<Rightarrow> js_error + (int \<times> forward_state)" where
  "forward_loop recur es nodeId [] maxPredecessorFinish st = Inr (maxPredecessorFinish, st)"
| "forward_loop recur es nodeId (predId # rest) maxPredecessorFinish st =
     (case recur predId st of
        Inl e \<Rightarrow> Inl e
      | Inr (predFinish, st') \<Rightarrow>
          forward_loop recur es nodeId rest
            (max maxPredecessorFinish (predFinish + lag_of es predId nodeId)) st')"

text \<open>
  \<open>forwardPass\<close>, memoised on \<open>earliestFinish\<close>. The first argument is the depth of
  call stack left; at depth 0 the engine throws \<open>RangeError\<close>. \<open>node.duration_days\<close>
  throws \<open>TypeError\<close> when \<open>nodeId\<close> is not a node of the graph.
\<close>

primrec forwardPass ::
  "nat \<Rightarrow> cpm_env \<Rightarrow> string \<Rightarrow> forward_state \<Rightarrow> js_error + (int \<times> forward_state)" where
  "forwardPass 0 env nodeId st = Inl RangeError"
| "forwardPass (Suc depth) env nodeId st =
     (case map_of (earliestFinish st) nodeId of
        Some finish \<Rightarrow> Inr (finish, st)
      | None \<Rightarrow>
         (let predecessors = (case map_of (env_reverseAdjacencyList env) nodeId of
                                None \<Rightarrow> [] | Some ps \<Rightarrow> ps)
          in case forward_loop (forwardPass depth env) (env_edges env) nodeId predecessors 0 st of
               Inl e \<Rightarrow> Inl e
             | Inr (maxPredecessorFinish, st1) \<Rightarrow>
                (let st2 = st1\<lparr>earliestStart :=
                              AList.update nodeId maxPredecessorFinish (earliestStart st1)\<rparr>
                 in case map_of (env_nodeMap env) nodeId of
                      None \<Rightarrow> Inl TypeError
                    | Some node \<Rightarrow>
                       (let finish = maxPredecessorFinish + duration_days node
                        in Inr (finish,
                             st2\<lparr>earliestFinish := AList.update nodeId finish (earliestFinish st2)\<rparr>)))))"

text \<open>\<open>graph.nodes.forEach(node => forwardPass(node.id))\<close>.\<close>

fun forward_all ::
  "nat \<Rightarrow> cpm_env \<Rightarrow> GraphNode list \<Rightarrow> forward_state \<Rightarrow> js_error + forward_state" where
  "forward_all depth env [] st = Inr st"
| "forward_all depth env (node # rest) st =
     (case forwardPass depth env (node_id node) st of
        Inl e \<Rightarrow> Inl e
      | Inr (_, st') \<Rightarrow> forward_all depth env rest st')"

record backward_state =
  latestStart :: "(string, int js_number) js_map"
  latestFinish :: "(string, int js_number) js_map"

text \<open>\<open>m.get(k)!\<close> used as a number: an absent key gives \<open>undefined\<close>, NaN in arithmetic.\<close>

definition get_number :: "(string, int) js_map \<Rightarrow> string \<Rightarrow> int js_number" where
  "get_number m k = (case map_of m k of None \<Rightarrow> NaN | Some v \<Rightarrow> Finite v)"

definition get_js_number :: "(string, int js_number) js_map \<Rightarrow> string \<Rightarrow> int js_number" where
  "get_js_number m k = (case map_of m k of None \<Rightarrow> NaN | Some v \<Rightarrow> v)"

fun backward_loop ::
  "(string \<Rightarrow> backward_state \<Rightarrow> js_error + (int js_number \<times> backward_state)) \<Rightarrow> GraphEdge list
   \<Rightarrow> string \<Rightarrow> string list \<Rightarrow> int js_number \<Rightarrow> backward_state
   \<Rightarrow> js_error + (int js_number \<times> backward_state)" where
  "backward_loop recur es nodeId [] minSuccessorStart st = Inr (minSuccessorStart, st)"
| "backward_loop recur es nodeId (succId # rest) minSuccessorStart st =
     (case recur succId st of
        Inl e \<Rightarrow> Inl e
      | Inr (succStart, st') \<Rightarrow>
          backward_loop recur es nodeId rest
            (js_min minSuccessorStart (js_sub succStart (Finite (lag_of es nodeId succId)))) st')"

primrec backwardPass ::
  "nat \<Rightarrow> cpm_env \<Rightarrow> (string, int) js_map \<Rightarrow> int js_number \<Rightarrow> string \<Rightarrow> backward_state
   \<Rightarrow> js_error + (int js_number \<times> backward_state)" where
  "backwardPass 0 env ef projectCompletion nodeId st = Inl RangeError"
| "backwardPass (Suc depth) env ef projectCompletion nodeId st =
     (case map_of (latestStart st) nodeId of
        Some start \<Rightarrow> Inr (start, st)
      | None \<Rightarrow>
         (let successors = (case map_of (env_adjacencyList env) nodeId of
                              None \<Rightarrow> [] | Some ss \<Rightarrow> ss)
          in case (if length successors = 0 then Inr (get_number ef nodeId, st)
                   else backward_loop (backwardPass depth env ef projectCompletion)
                          (env_edges env) nodeId successors projectCompletion st) of
               Inl e \<Rightarrow> Inl e
             | Inr (minSuccessorStart, st1) \<Rightarrow>
                (let st2 = st1\<lparr>latestFinish :=
                              AList.update nodeId minSuccessorStart (latestFinish st1)\<rparr>
                 in case map_of (env_nodeMap env) nodeId of
                      None \<Rightarrow> Inl TypeError
                    | Some node \<Rightarrow>
                       (let start = js_sub minSuccessorStart (Finite (duration_days node))
                        in Inr (start,
                             st2\<lparr>latestStart := AList.update nodeId start (latestStart st2)\<rparr>)))))"

fun backward_all ::
  "nat \<Rightarrow> cpm_env \<Rightarrow> (string, int) js_map \<Rightarrow> int js_number \<Rightarrow> GraphNode list \<Rightarrow> backward_state
   \<Rightarrow> js_error + backward_state" where
  "backward_all depth env ef projectCompletion [] st = Inr st"
| "backward_all depth env ef projectCompletion (node # rest) st =
     (case backwardPass depth env ef projectCompletion (node_id node) st of
        Inl e \<Rightarrow> Inl e
      | Inr (_, st') \<Rightarrow> backward_all depth env ef projectCompletion rest st')"

text \<open>The two passes and the project completion time between them.\<close>

record cpm_tables =
  tab_earliestStart :: "(string, int) js_map"
  tab_earliestFinish :: "(string, int) js_map"
  tab_projectCompletion :: "int js_number"
  tab_latestStart :: "(string, int js_number) js_map"
  tab_latestFinish :: "(string, int js_number) js_map"

definition cpm_passes :: "nat \<Rightarrow> DependencyGraph \<Rightarrow> js_error + cpm_tables" where
  "cpm_passes depth g =
     (let env = cpm_env_of g in
      case forward_all depth env (nodes g) \<lparr>earliestStart = [], earliestFinish = []\<rparr> of
        Inl e \<Rightarrow> Inl e
      | Inr fw \<Rightarrow>
         (let projectCompletion = math_max (map snd (earliestFinish fw)) in
          case backward_all depth env (earliestFinish fw) projectCompletion (nodes g)
                 \<lparr>latestStart = [], latestFinish = []\<rparr> of
            Inl e \<Rightarrow> Inl e
          | Inr bw \<Rightarrow>
             Inr \<lparr> tab_earliestStart = earliestStart fw,
                   tab_earliestFinish = earliestFinish fw,
                   tab_projectCompletion = projectCompletion,
                   tab_latestStart = latestStart bw,
                   tab_latestFinish = latestFinish bw \<rparr>))"

text \<open>\<open>new Date(Date.now() + days * 24 * 60 * 60 * 1000)\<close>, with \<open>now\<close> for \<open>Date.now()\<close>.\<close>

fun date_after :: "int \<Rightarrow> int js_number \<Rightarrow> js_date" where
  "date_after now (Finite days) = Date (now + days * 24 * 60 * 60 * 1000)"
| "date_after now other = InvalidDate"

definition annotate_node :: "int \<Rightarrow> cpm_tables \<Rightarrow> GraphNode \<Rightarrow> GraphNode" where
  "annotate_node now t node =
     (let earliestS = get_number (tab_earliestStart t) (node_id node);
          latestS = get_js_number (tab_latestStart t) (node_id node);
          slack = js_sub latestS earliestS
      in node\<lparr> earliest_start := Some (date_after now earliestS),
               earliest_finish := Some (date_after now (get_number (tab_earliestFinish t) (node_id node))),
               latest_start := Some (date_after now latestS),
               latest_finish := Some (date_after now (get_js_number (tab_latestFinish t) (node_id node))),
               slack_days := Some slack,
               is_critical := (slack = Finite 0) \<rparr>)"

text \<open>
  \<open>edge.is_critical = fromNode.is_critical && toNode.is_critical\<close>: \<open>toNode\<close> is
  read only when \<open>fromNode\<close> is critical.
\<close>

fun mark_edges ::
  "(string, GraphNode) js_map \<Rightarrow> GraphEdge list \<Rightarrow> js_error + GraphEdge list" where
  "mark_edges nm [] = Inr []"
| "mark_edges nm (edge # rest) =
     (case map_of nm (e_from edge) of
        None \<Rightarrow> Inl TypeError
      | Some fromNode \<Rightarrow>
         (case (if is_critical fromNode
                then (case map_of nm (e_to edge) of
                        None \<Rightarrow> Inl TypeError
                      | Some toNode \<Rightarrow> Inr (is_critical toNode))
                else Inr False) of
            Inl e \<Rightarrow> Inl e
          | Inr c \<Rightarrow>
             (case mark_edges nm rest of
                Inl e \<Rightarrow> Inl e
              | Inr rest' \<Rightarrow> Inr (edge\<lparr>e_is_critical := c\<rparr> # rest'))))"

record CriticalPathAnalysis =
  path :: "string list"
  total_duration_days :: "int js_number"
  risk_score :: "real js_number"
  completion_probability :: "real js_number"

text \<open>
  \<open>calculateCriticalPath\<close> returns the analysis and leaves the graph annotated (the
  node and edge objects are updated in place; \<open>nodeMap\<close> holds the same node objects).
\<close>

definition calculateCriticalPath ::
  "nat \<Rightarrow> int \<Rightarrow> DependencyGraph \<Rightarrow> js_error + (CriticalPathAnalysis \<times> DependencyGraph)" where
  "calculateCriticalPath depth now g =
     (case cpm_passes depth g of
        Inl e \<Rightarrow> Inl e
      | Inr t \<Rightarrow>
         (let nodes' = map (annotate_node now t) (nodes g);
              criticalNodes = map node_id (filter is_critical nodes')
          in case mark_edges (nodeMap nodes') (edges g) of
               Inl e \<Rightarrow> Inl e
             | Inr edges' \<Rightarrow>
                Inr (\<lparr> path = criticalNodes,
                       total_duration_days = tab_projectCompletion t,
                       risk_score = Finite 0,
                       completion_probability = Finite 0 \<rparr>,
                     g\<lparr>nodes := nodes', edges := edges'\<rparr>)))"

section \<open>Analysis layer\<close>

definition calculateRiskScore :: "DependencyGraph \<Rightarrow> real js_number" where
  "calculateRiskScore g =
     (let criticalNodes = filter is_critical (nodes g);
          blockedNodes = filter (\<lambda>n. status n = ''blocked'') (nodes g);
          longDurationNodes = filter (\<lambda>n. duration_days n > 30) (nodes g);
          riskScore = 0 + real (length criticalNodes) * 0.3
                        + real (length blockedNodes) * 0.5
                        + real (length longDurationNodes) * 0.2
      in js_min (js_div riskScore (real (length (nodes g)))) (Finite 1))"

definition estimateCompletionProbability :: "real js_number \<Rightarrow> real js_number" where
  "estimateCompletionProbability riskScore = js_max (Finite 0.1) (js_sub (Finite 1) riskScore)"

section \<open>Cycle detection on a graph (detectCycles)\<close>

record dfs_state =
  visited :: "string set"
  recursionStack :: "string set"
  found_cycles :: "string list list"

text \<open>
  \<open>path.slice(path.indexOf(neighbor))\<close>: from the first occurrence of \<open>neighbor\<close>;
  \<open>indexOf\<close> is -1 when there is none, and \<open>slice(-1)\<close> is the last element.
\<close>

definition slice_from_indexOf :: "string list \<Rightarrow> string \<Rightarrow> string list" where
  "slice_from_indexOf p neighbor =
     (if neighbor \<in> set p then dropWhile (\<lambda>x. x \<noteq> neighbor) p
      else drop (length p - 1) p)"

fun dfs_loop ::
  "(string \<Rightarrow> string list \<Rightarrow> dfs_state \<Rightarrow> js_error + (bool \<times> dfs_state)) \<Rightarrow> string list
   \<Rightarrow> string list \<Rightarrow> dfs_state \<Rightarrow> js_error + (bool \<times> dfs_state)" where
  "dfs_loop recur [] p st = Inr (False, st)"
| "dfs_loop recur (neighbor # rest) p st =
     (if neighbor \<notin> visited st then
        (case recur neighbor p st of
           Inl e \<Rightarrow> Inl e
         | Inr (found, st') \<Rightarrow> if found then Inr (True, st') else dfs_loop recur rest p st')
      else if neighbor \<in> recursionStack st then
        Inr (True, st\<lparr>found_cycles :=
                         found_cycles st @ [slice_from_indexOf p neighbor @ [neighbor]]\<rparr>)
      else dfs_loop recur rest p st)"

primrec dfs ::
  "nat \<Rightarrow> (string, string list) js_map \<Rightarrow> string \<Rightarrow> string list \<Rightarrow> dfs_state
   \<Rightarrow> js_error + (bool \<times> dfs_state)" where
  "dfs 0 adj nodeId p st = Inl RangeError"
| "dfs (Suc depth) adj nodeId p st =
     (let st1 = st\<lparr>visited := insert nodeId (visited st),
                   recursionStack := insert nodeId (recursionStack st)\<rparr>;
          p1 = p @ [nodeId];
          neighbors = (case map_of adj nodeId of None \<Rightarrow> [] | Some ns \<Rightarrow> ns)
      in case dfs_loop (dfs depth adj) neighbors p1 st1 of
           Inl e \<Rightarrow> Inl e
         | Inr (found, st2) \<Rightarrow>
             if found then Inr (True, st2)
             else Inr (False, st2\<lparr>recursionStack := recursionStack st2 - {nodeId}\<rparr>))"

fun dfs_all ::
  "nat \<Rightarrow> (string, string list) js_map \<Rightarrow> GraphNode list \<Rightarrow> dfs_state \<Rightarrow> js_error + dfs_state" where
  "dfs_all depth adj [] st = Inr st"
| "dfs_all depth adj (node # rest) st =
     (if node_id node \<notin> visited st then
        (case dfs depth adj (node_id node) [] st of
           Inl e \<Rightarrow> Inl e
         | Inr (_, st') \<Rightarrow> dfs_all depth adj rest st')
      else dfs_all depth adj rest st)"

function string_of_nat :: "nat \<Rightarrow> string" where
  "string_of_nat n =
     (if n < 10 then [char_of (48 + n)]
      else string_of_nat (n div 10) @ [char_of (48 + n mod 10)])"
  by pat_completeness auto
termination
  by (relation "measure id") auto

declare string_of_nat.simps [simp del]

text \<open>An index outside the array reads \<open>undefined\<close>, printed as such in a template.\<close>

definition element_text :: "string list \<Rightarrow> int \<Rightarrow> string" where
  "element_text xs i =
     (if 0 \<le> i \<and> i < int (length xs) then xs ! nat i else ''undefined'')"

fun generateCycleResolutions_from :: "nat \<Rightarrow> string list list \<Rightarrow> string list" where
  "generateCycleResolutions_from index [] = []"
| "generateCycleResolutions_from index (cycle # rest) =
     [''Cycle '' @ string_of_nat (index + 1) @ '': Consider removing dependency between ''
        @ element_text cycle (int (length cycle) - 2) @ '' and ''
        @ element_text cycle (int (length cycle) - 1),
      ''Cycle '' @ string_of_nat (index + 1) @ '': Alternative - Split work item ''
        @ element_text cycle 0 @ '' to break the cycle'']
     @ generateCycleResolutions_from (index + 1) rest"

definition generateCycleResolutions :: "string list list \<Rightarrow> string list" where
  "generateCycleResolutions cs = generateCycleResolutions_from 0 cs"

definition detectCycles :: "nat \<Rightarrow> DependencyGraph \<Rightarrow> js_error + CycleDetectionResult" where
  "detectCycles depth g =
     (case dfs_all depth (adjacencyList g) (nodes g)
             \<lparr>visited = {}, recursionStack = {}, found_cycles = []\<rparr> of
        Inl e \<Rightarrow> Inl e
      | Inr st \<Rightarrow>
          Inr \<lparr> has_cycles = (length (found_cycles st) > 0),
                cycles = found_cycles st,
                affected_work_items = rev (remdups (rev (concat (found_cycles st)))),
                resolution_suggestions = generateCycleResolutions (found_cycles st) \<rparr>)"

section \<open>Graph queries (getDependencyGraph)\<close>

text \<open>
  \<open>workItemIds\<close> is \<open>None\<close> when the caller gives no filter. The work items are
  those of the tenant with an id in the filter; the dependency rows are those of the
  tenant with \<open>from_id\<close> or \<open>to_id\<close> in the filter.
\<close>

definition select_work_items :: "User \<Rightarrow> string list option \<Rightarrow> world \<Rightarrow> WorkItem list" where
  "select_work_items user workItemIds w =
     filter (\<lambda>r. wi_tenant_id r = user_tenant_id user
                 \<and> (case workItemIds of None \<Rightarrow> True | Some ids \<Rightarrow> wi_id r \<in> set ids))
       (work_items w)"

definition select_dependencies :: "User \<Rightarrow> string list option \<Rightarrow> world \<Rightarrow> Dependency list" where
  "select_dependencies user workItemIds w =
     filter (\<lambda>d. tenant_id d = user_tenant_id user
                 \<and> (case workItemIds of None \<Rightarrow> True
                     | Some ids \<Rightarrow> from_id d \<in> set ids \<or> to_id d \<in> set ids))
       (dependency_edges w)"

definition getDependencyGraph ::
  "nat \<Rightarrow> int \<Rightarrow> User \<Rightarrow> string list option \<Rightarrow> world \<Rightarrow> js_error + DependencyGraph" where
  "getDependencyGraph depth now user workItemIds w =
     (let workItems = select_work_items user workItemIds w;
          dependencies = select_dependencies user workItemIds w;
          graph = buildDependencyGraph workItems dependencies
      in case calculateCriticalPath depth now graph of
           Inl e \<Rightarrow> Inl e
         | Inr (criticalPath, graph1) \<Rightarrow>
            (case detectCycles depth graph1 of
               Inl e \<Rightarrow> Inl e
             | Inr cycleDetection \<Rightarrow>
                Inr \<lparr> nodes = nodes graph1,
                      edges = edges graph1,
                      critical_path = path criticalPath,
                      cycle_detected = has_cycles cycleDetection,
                      graph_cycles = Some (cycles cycleDetection) \<rparr>))"

section \<open>Sequences of calls\<close>

text \<open>
  A sequence of \<open>createDependency\<close> and \<open>deleteDependency\<close> calls, each with the
  values of \<open>uuidv4()\<close> and \<open>new Date()\<close> it draws. \<open>run_calls\<close> is the world after
  the sequence when every call succeeds, and \<open>None\<close> when one throws.
  \<open>tenant_edges\<close> is the edge relation a tenant has stored, \<open>tenant_items\<close> the ids
  of its work items.
\<close>

datatype operation =
  Create User CreateDependencyRequest string date
| Delete User string date

fun run_calls :: "operation list \<Rightarrow> world \<Rightarrow> world option" where
  "run_calls [] w = Some w"
| "run_calls (Create user data dependencyId now # rest) w =
     (case createDependency user data dependencyId now w of
        (Inr _, w') \<Rightarrow> run_calls rest w'
      | (Inl _, _) \<Rightarrow> None)"
| "run_calls (Delete user dependencyId now # rest) w =
     (case deleteDependency user dependencyId now w of
        (Inr _, w') \<Rightarrow> run_calls rest w'
      | (Inl _, _) \<Rightarrow> None)"

fun no_self_loop :: "operation \<Rightarrow> bool" where
  "no_self_loop (Create user data dependencyId now) = (req_from_id data \<noteq> req_to_id data)"
| "no_self_loop (Delete user dependencyId now) = True"

definition tenant_edges :: "string \<Rightarrow> world \<Rightarrow> (string \<times> string) set" where
  "tenant_edges t w =
     set (map (\<lambda>d. (from_id d, to_id d)) (filter (\<lambda>d. tenant_id d = t) (dependency_edges w)))"

definition tenant_items :: "string \<Rightarrow> world \<Rightarrow> string set" where
  "tenant_items t w = set (map wi_id (filter (\<lambda>r. wi_tenant_id r = t) (work_items w)))"

text \<open>
  The state of a tenant that the calls maintain: its edges are acyclic and join its
  own work items, of which there are at most 21, so that no path has more than the
  20 edges the probe of \<open>wouldCreateCycle\<close> follows.
\<close>

definition tenant_ok :: "string \<Rightarrow> world \<Rightarrow> bool" where
  "tenant_ok t w \<longleftrightarrow>
     acyclic (tenant_edges t w) \<and> Field (tenant_edges t w) \<subseteq> tenant_items t w
     \<and> card (tenant_items t w) \<le> 21"

section \<open>Graphs, and what the passes maintain\<close>

text \<open>
  The input of the critical path method is a graph: the node ids are distinct, every
  edge joins two nodes, and no two edges join the same pair of nodes (the store's
  uniqueness constraint). \<open>edge_rel\<close> is its edge relation; the graph is acyclic when
  \<^term>\<open>acyclic (edge_rel g)\<close>.
\<close>

definition node_ids :: "DependencyGraph \<Rightarrow> string set" where
  "node_ids g = set (map node_id (nodes g))"

definition edge_rel :: "DependencyGraph \<Rightarrow> (string \<times> string) set" where
  "edge_rel g = set (map (\<lambda>e. (e_from e, e_to e)) (edges g))"

definition well_formed :: "DependencyGraph \<Rightarrow> bool" where
  "well_formed g \<longleftrightarrow>
     distinct (map node_id (nodes g))
     \<and> list_all (\<lambda>e. e_from e \<in> node_ids g \<and> e_to e \<in> node_ids g) (edges g)
     \<and> distinct (map (\<lambda>e. (e_from e, e_to e)) (edges g))"

definition predecessors_of :: "DependencyGraph \<Rightarrow> string \<Rightarrow> string list" where
  "predecessors_of g k = map e_from (filter (\<lambda>e. e_to e = k) (edges g))"

definition successors_of :: "DependencyGraph \<Rightarrow> string \<Rightarrow> string list" where
  "successors_of g k = map e_to (filter (\<lambda>e. e_from e = k) (edges g))"

text \<open>
  The invariant of the forward pass: every node with a stored earliest finish has all
  its predecessors stored, its earliest start is the maximum of 0 and of
  \<open>EF(p) + lag\<close> over its predecessors (\<open>forward_value\<close>), and its earliest finish is
  that plus its duration. A call for node \<open>k\<close> only adds entries for \<open>k\<close> and nodes
  that reach \<open>k\<close> (\<open>forward_post\<close>).
\<close>

definition duration_of :: "DependencyGraph \<Rightarrow> string \<Rightarrow> int" where
  "duration_of g k = (case map_of (nodeMap (nodes g)) k of None \<Rightarrow> 0 | Some n \<Rightarrow> duration_days n)"

definition forward_value :: "DependencyGraph \<Rightarrow> (string \<rightharpoonup> int) \<Rightarrow> string \<Rightarrow> int" where
  "forward_value g ef k =
     fold (\<lambda>p m. max m (the (ef p) + lag_of (edges g) p k)) (predecessors_of g k) 0"

abbreviation ESm :: "forward_state \<Rightarrow> (string \<rightharpoonup> int)" where
  "ESm st \<equiv> map_of (earliestStart st)"

abbreviation EFm :: "forward_state \<Rightarrow> (string \<rightharpoonup> int)" where
  "EFm st \<equiv> map_of (earliestFinish st)"

definition forward_inv :: "DependencyGraph \<Rightarrow> forward_state \<Rightarrow> bool" where
  "forward_inv g st \<longleftrightarrow>
     (\<forall>k v. EFm st k = Some v \<longrightarrow>
        k \<in> node_ids g
        \<and> (\<forall>p \<in> set (predecessors_of g k). EFm st p \<noteq> None)
        \<and> ESm st k = Some (forward_value g (EFm st) k)
        \<and> v = forward_value g (EFm st) k + duration_of g k)"

definition ancestors :: "DependencyGraph \<Rightarrow> string \<Rightarrow> string set" where
  "ancestors g k = {a. (a, k) \<in> (edge_rel g)\<^sup>*}"

definition forward_post ::
  "DependencyGraph \<Rightarrow> string \<Rightarrow> forward_state \<Rightarrow> int \<Rightarrow> forward_state \<Rightarrow> bool" where
  "forward_post g k st v st' \<longleftrightarrow>
     forward_inv g st' \<and> EFm st' k = Some v \<and> EFm st \<subseteq>\<^sub>m EFm st'
     \<and> dom (EFm st') \<subseteq> dom (EFm st) \<union> ancestors g k"

text \<open>
  The invariant of the backward pass, in the same way: the latest finish of a stored
  node is its earliest finish when it has no successor, and otherwise the minimum of
  the project completion and of \<open>LS(s) - lag\<close> over its successors
  (\<open>backward_value\<close>); its latest start is that minus its duration.
\<close>

abbreviation LSm :: "backward_state \<Rightarrow> (string \<rightharpoonup> int js_number)" where
  "LSm st \<equiv> map_of (latestStart st)"

abbreviation LFm :: "backward_state \<Rightarrow> (string \<rightharpoonup> int js_number)" where
  "LFm st \<equiv> map_of (latestFinish st)"

definition backward_value ::
  "DependencyGraph \<Rightarrow> (string, int) js_map \<Rightarrow> int js_number \<Rightarrow> (string \<rightharpoonup> int js_number)
   \<Rightarrow> string \<Rightarrow> int js_number" where
  "backward_value g ef pc ls k =
     (if successors_of g k = [] then get_number ef k
      else fold (\<lambda>q m. js_min m (js_sub (the (ls q)) (Finite (lag_of (edges g) k q))))
             (successors_of g k) pc)"

definition backward_inv ::
  "DependencyGraph \<Rightarrow> (string, int) js_map \<Rightarrow> int js_number \<Rightarrow> backward_state \<Rightarrow> bool" where
  "backward_inv g ef pc st \<longleftrightarrow>
     (\<forall>k v. LSm st k = Some v \<longrightarrow>
        k \<in> node_ids g
        \<and> (\<forall>q \<in> set (successors_of g k). LSm st q \<noteq> None)
        \<and> LFm st k = Some (backward_value g ef pc (LSm st) k)
        \<and> v = js_sub (backward_value g ef pc (LSm st) k) (Finite (duration_of g k)))"

definition descendants :: "DependencyGraph \<Rightarrow> string \<Rightarrow> string set" where
  "descendants g k = {d. (k, d) \<in> (edge_rel g)\<^sup>*}"

definition backward_post ::
  "DependencyGraph \<Rightarrow> (string, int) js_map \<Rightarrow> int js_number \<Rightarrow> string \<Rightarrow> backward_state
   \<Rightarrow> int js_number \<Rightarrow> backward_state \<Rightarrow> bool" where
  "backward_post g ef pc k st v st' \<longleftrightarrow>
     backward_inv g ef pc st' \<and> LSm st' k = Some v \<and> LSm st \<subseteq>\<^sub>m LSm st'
     \<and> dom (LSm st') \<subseteq> dom (LSm st) \<union> descendants g k"

text \<open>What the tables of a completed run satisfy: both invariants, on all nodes.\<close>

definition forward_tables :: "cpm_tables \<Rightarrow> forward_state" where
  "forward_tables t =
     \<lparr>earliestStart = tab_earliestStart t, earliestFinish = tab_earliestFinish t\<rparr>"

definition backward_tables :: "cpm_tables \<Rightarrow> backward_state" where
  "backward_tables t =
     \<lparr>latestStart = tab_latestStart t, latestFinish = tab_latestFinish t\<rparr>"

definition tables_ok :: "DependencyGraph \<Rightarrow> cpm_tables \<Rightarrow> bool" where
  "tables_ok g t \<longleftrightarrow>
     forward_inv g (forward_tables t)
     \<and> dom (map_of (tab_earliestFinish t)) = node_ids g
     \<and> tab_projectCompletion t = math_max (map snd (tab_earliestFinish t))
     \<and> backward_inv g (tab_earliestFinish t) (tab_projectCompletion t) (backward_tables t)
     \<and> dom (map_of (tab_latestStart t)) = node_ids g"

fun finite_part :: "int js_number \<Rightarrow> int" where
  "finite_part (Finite x) = x"
| "finite_part other = 0"

section \<open>Example inputs\<close>

definition example_user :: User where
  "example_user = \<lparr> user_id = ''u1'', email = ''u1@example.org'', user_tenant_id = ''T'', roles = [] \<rparr>"

definition example_item :: "string \<Rightarrow> WorkItem" where
  "example_item i = \<lparr> wi_id = i, wi_tenant_id = ''T'', wi_type = ''task'', wi_title = i,
     wi_status = ''open'', estimated_duration_days = None \<rparr>"

definition example_row :: "string \<Rightarrow> string \<Rightarrow> Dependency" where
  "example_row a b = \<lparr> dep_id = a @ b, tenant_id = ''T'', from_id = a, to_id = b,
     dependency_type = FINISH_TO_START, lag_days = 0, created_at = 0, created_by = ''u1'',
     updated_at = 0, metadata = ''{}'' \<rparr>"

definition example_request :: "string \<Rightarrow> string \<Rightarrow> CreateDependencyRequest" where
  "example_request a b = \<lparr> req_from_id = a, req_to_id = b,
     req_dependency_type = FINISH_TO_START, req_lag_days = None, req_metadata = None \<rparr>"

definition empty_patch :: UpdateDependencyRequest where
  "empty_patch = \<lparr> upd_dependency_type = None, upd_lag_days = None, upd_metadata = None \<rparr>"

definition world_empty :: world where
  "world_empty = \<lparr> work_items = [], dependency_edges = [], published = [] \<rparr>"

text \<open>Work items A, B, C of tenant T with the stored edges A -> B and B -> C.\<close>

definition world_abc :: world where
  "world_abc = \<lparr> work_items = [example_item ''A'', example_item ''B'', example_item ''C''],
     dependency_edges = [example_row ''A'' ''B'', example_row ''B'' ''C''],
     published = [] \<rparr>"

definition mk_node :: "string \<Rightarrow> int \<Rightarrow> GraphNode" where
  "mk_node i d = \<lparr> node_id = i, title = i, node_type = ''task'', status = ''open'',
     duration_days = d, earliest_start = None, earliest_finish = None, latest_start = None,
     latest_finish = None, slack_days = None, is_critical = False \<rparr>"

definition mk_edge :: "string \<Rightarrow> string \<Rightarrow> int \<Rightarrow> GraphEdge" where
  "mk_edge a b l = \<lparr> edge_id = a @ b, e_from = a, e_to = b, e_type = FINISH_TO_START,
     e_lag_days = l, e_is_critical = False \<rparr>"

definition mk_graph :: "GraphNode list \<Rightarrow> GraphEdge list \<Rightarrow> DependencyGraph" where
  "mk_graph ns es = \<lparr> nodes = ns, edges = es, critical_path = [], cycle_detected = False,
     graph_cycles = None \<rparr>"

text \<open>The diamond of the specification: A(4), B(2), C(3), D(1); A -> C has lag 1.\<close>

definition diamond :: DependencyGraph where
  "diamond = mk_graph [mk_node ''A'' 4, mk_node ''B'' 2, mk_node ''C'' 3, mk_node ''D'' 1]
     [mk_edge ''A'' ''B'' 0, mk_edge ''A'' ''C'' 1, mk_edge ''B'' ''D'' 0, mk_edge ''C'' ''D'' 0]"

text \<open>Work items A and B of tenant T with the stored edge A -> B.\<close>

definition world_ab :: world where
  "world_ab = \<lparr> work_items = [example_item ''A'', example_item ''B''],
     dependency_edges = [example_row ''A'' ''B''], published = [] \<rparr>"

text \<open>A(1) -> B(1) with lag -5.\<close>

definition lag_graph :: DependencyGraph where
  "lag_graph = mk_graph [mk_node ''A'' 1, mk_node ''B'' 1] [mk_edge ''A'' ''B'' (-5)]"

text \<open>
  A tenant with the 22 work items a, ..., v and no edge, and the calls that create
  a -> b, b -> c, ..., u -> v and then v -> a.
\<close>

definition chain_ids :: "string list" where
  "chain_ids = [''a'', ''b'', ''c'', ''d'', ''e'', ''f'', ''g'', ''h'', ''i'', ''j'', ''k'',
                ''l'', ''m'', ''n'', ''o'', ''p'', ''q'', ''r'', ''s'', ''t'', ''u'', ''v'']"

definition world_of_items :: "string list \<Rightarrow> world" where
  "world_of_items ids = \<lparr> work_items = map example_item ids, dependency_edges = [], published = [] \<rparr>"

definition chain_calls :: "operation list" where
  "chain_calls =
     map (\<lambda>(x, y). Create example_user (example_request x y) (x @ y) 0)
       (zip chain_ids (tl chain_ids) @ [(''v'', ''a'')])"

lemmas example_defs = world_ab_def example_user_def example_item_def example_row_def example_request_def
  empty_patch_def world_empty_def world_abc_def mk_node_def mk_edge_def mk_graph_def diamond_def

section \<open>Update with an empty patch\<close>

lemma updates_empty:
  "upd_dependency_type data = None \<Longrightarrow> upd_lag_days data = None \<Longrightarrow> upd_metadata data = None
   \<Longrightarrow> updates data = []"
  by (simp add: updates_def)

text \<open>
  C10: for every existing dependency edge, \<open>updateDependency\<close> with a patch that has
  none of \<open>dependency_type\<close>, \<open>lag_days\<close>, \<open>metadata\<close> returns the existing edge
  as it is stored (every field, \<open>updated_at\<close> included), and the world after the call
  is the world before it: no row is written and no message is published.
\<close>

theorem updateDependency_empty_patch:
  assumes "getDependencyById user dependencyId w = Some existing"
    and "upd_dependency_type data = None" and "upd_lag_days data = None"
    and "upd_metadata data = None"
  shows "updateDependency user dependencyId data now w = (Inr (Some existing), w)"
  using assms
  by (simp add: updateDependency_def transaction_def updateDependency_callback_def updates_empty)

theorem updateDependency_empty_patch_witness:
  "getDependencyById example_user ''AB'' world_abc = Some (example_row ''A'' ''B'')
   \<and> updateDependency example_user ''AB'' empty_patch 1000 world_abc
       = (Inr (Some (example_row ''A'' ''B'')), world_abc)"
proof -
  have h: "getDependencyById example_user ''AB'' world_abc = Some (example_row ''A'' ''B'')"
    by (simp add: getDependencyById_def example_defs)
  show ?thesis
    using h updateDependency_empty_patch [OF h, of empty_patch 1000]
    by (simp add: empty_patch_def)
qed

section \<open>Classification of a missing work item\<close>

text \<open>
  When a referenced work item is not in the caller's tenant, the service fails with
  \<open>WORK_ITEMS_NOT_FOUND\<close> and the missing ids, and leaves the world as it is. At the
  controller every such message contains \<open>NOT_FOUND\<close>, so it is answered with 404.
\<close>

lemma validateWorkItemsExist_missing:
  assumes "filter (\<lambda>i. i \<notin> tenant_items (user_tenant_id user) w) ids \<noteq> []"
  shows "validateWorkItemsExist user ids w
         = Inl (Error (''WORK_ITEMS_NOT_FOUND: ''
                       @ join '', '' (filter (\<lambda>i. i \<notin> tenant_items (user_tenant_id user) w) ids)))"
proof -
  let ?found = "map wi_id (filter (\<lambda>r. wi_tenant_id r = user_tenant_id user
                                          \<and> wi_id r \<in> set ids) (work_items w))"
  have "i \<in> set ?found \<longleftrightarrow> i \<in> tenant_items (user_tenant_id user) w" if "i \<in> set ids" for i
    using that unfolding tenant_items_def by auto
  then have "filter (\<lambda>i. i \<notin> set ?found) ids
             = filter (\<lambda>i. i \<notin> tenant_items (user_tenant_id user) w) ids"
    by (intro filter_cong) simp_all
  then show ?thesis
    using assms unfolding validateWorkItemsExist_def by (simp add: Let_def)
qed

lemma createDependency_missing_item:
  assumes "filter (\<lambda>i. i \<notin> tenant_items (user_tenant_id user) w)
             [req_from_id data, req_to_id data] \<noteq> []"
  shows "createDependency user data newId now w
         = (Inl (Error (''WORK_ITEMS_NOT_FOUND: ''
                       @ join '', '' (filter (\<lambda>i. i \<notin> tenant_items (user_tenant_id user) w)
                                        [req_from_id data, req_to_id data]))), w)"
  unfolding createDependency_def transaction_def createDependency_callback_def
    validateWorkItemsExist_missing [OF assms]
  by simp

lemma handleError_shadowed:
  assumes "\<not> str_includes rest ''CYCLE_DETECTED''"
  shows "statusCode (handleError (Error (''WORK_ITEMS_NOT_FOUND: '' @ rest)) fallback) = 404"
    and "errorCode (handleError (Error (''WORK_ITEMS_NOT_FOUND: '' @ rest)) fallback) = Some ''NOT_FOUND''"
  using assms unfolding handleError_def by (simp_all add: Let_def)

text \<open>
  C5: a request that names work items A and B in a tenant that has neither. The
  service fails with the message \<open>WORK_ITEMS_NOT_FOUND: A, B\<close>, and the controller
  answers 404 with code \<open>NOT_FOUND\<close>: \<open>handleError\<close> tests for \<open>NOT_FOUND\<close> before
  it tests for \<open>WORK_ITEMS_NOT_FOUND\<close>, so its 400 branch is never taken.
\<close>

theorem work_items_not_found_classified_404:
  "createDependency example_user (example_request ''A'' ''B'') newId now world_empty
     = (Inl (Error ''WORK_ITEMS_NOT_FOUND: A, B''), world_empty)
   \<and> statusCode (fst (controller_createDependency example_user (example_request ''A'' ''B'')
                        newId now world_empty)) = 404
   \<and> errorCode (fst (controller_createDependency example_user (example_request ''A'' ''B'')
                       newId now world_empty)) = Some ''NOT_FOUND''"
  by (simp add: controller_createDependency_def createDependency_def transaction_def
      createDependency_callback_def validateWorkItemsExist_def handleError_def example_defs)

section \<open>The empty graph\<close>

text \<open>
  C6: on the graph with no node and no edge, \<open>calculateCriticalPath\<close> returns the
  empty path and \<open>total_duration_days = -Infinity\<close> (\<open>Math.max()\<close> of no argument),
  not 0.
\<close>

theorem empty_graph_total_duration:
  "calculateCriticalPath depth now (mk_graph [] [])
     = Inr (\<lparr> path = [], total_duration_days = NegInfinity, risk_score = Finite 0,
               completion_probability = Finite 0 \<rparr>, mk_graph [] [])"
  by (simp add: calculateCriticalPath_def cpm_passes_def math_max_def nodeMap_def mk_graph_def)

text \<open>
  On a graph with at least one node the risk score is the formula of the analysis
  layer, computed exactly, and the completion probability of a finite score is
  \<open>max(0.1, 1 - score)\<close>.
\<close>

lemma risk_score_nonempty:
  assumes "nodes g \<noteq> []"
  shows "calculateRiskScore g
         = Finite (min ((0.3 * real (length (filter is_critical (nodes g)))
                        + 0.5 * real (length (filter (\<lambda>n. status n = ''blocked'') (nodes g)))
                        + 0.2 * real (length (filter (\<lambda>n. duration_days n > 30) (nodes g))))
                       / real (length (nodes g))) 1)"
  using assms unfolding calculateRiskScore_def js_div_def by (simp add: Let_def algebra_simps)

lemma completion_probability_finite:
  "estimateCompletionProbability (Finite r) = Finite (max 0.1 (1 - r))"
  unfolding estimateCompletionProbability_def by simp

text \<open>
  C9: on the graph with no node, \<open>calculateRiskScore\<close> divides 0 by 0 and returns
  NaN, not 0, and \<open>estimateCompletionProbability\<close> of it is NaN.
\<close>

theorem empty_graph_risk_score:
  "calculateRiskScore (mk_graph [] []) = NaN
   \<and> estimateCompletionProbability (calculateRiskScore (mk_graph [] [])) = NaN"
  by (simp add: calculateRiskScore_def js_div_def estimateCompletionProbability_def mk_graph_def)

section \<open>The diamond\<close>

text \<open>
  C3: on the diamond A(4), B(2), C(3), D(1) with edges A -> B (lag 0), A -> C (lag 1),
  B -> D (lag 0), C -> D (lag 0), with a call stack of depth 3 or more,
  \<open>calculateCriticalPath\<close> returns \<open>total_duration_days = 9\<close>, the critical nodes
  A, C, D, and slack 2 for node B.
\<close>

theorem diamond_critical_path:
  "\<exists>a g'. calculateCriticalPath (Suc (Suc (Suc k))) now diamond = Inr (a, g')
     \<and> total_duration_days a = Finite 9
     \<and> path a = [''A'', ''C'', ''D'']
     \<and> set (path a) = {''A'', ''C'', ''D''}
     \<and> map slack_days (filter (\<lambda>n. node_id n = ''B'') (nodes g')) = [Some (Finite 2)]"
  by (simp add: calculateCriticalPath_def cpm_passes_def math_max_def nodeMap_def example_defs
     cpm_env_of_def adjacencyList_def reverseAdjacencyList_def emptyAdjacency_def lag_of_def
     get_number_def get_js_number_def annotate_node_def Let_def insert_commute)

section \<open>Cycle rejection\<close>

lemma concat_map_mem: "a \<in> set xs \<Longrightarrow> y \<in> set (g a) \<Longrightarrow> y \<in> set (concat (map g xs))"
  by auto

lemma map_mem: "a \<in> set xs \<Longrightarrow> g a \<in> set (map g xs)"
  by simp

lemma path_base_mem:
  "d \<in> set es \<Longrightarrow> tenant_id d = t \<Longrightarrow> from_id d = a
   \<Longrightarrow> (a, to_id d, 1) \<in> set (path_base es t a)"
  unfolding path_base_def set_map set_filter by blast

lemma path_step_mem:
  assumes "(f, x, k) \<in> set working" "k < 20" "d \<in> set es" "tenant_id d = t" "from_id d = x"
  shows "(x, to_id d, Suc k) \<in> set (path_step es t working)"
  unfolding path_step_def
proof (rule concat_map_mem [OF assms(1)])
  have "d \<in> set (filter (\<lambda>de. from_id de = x \<and> tenant_id de = t \<and> k < 20) es)"
    using assms(2-5) by simp
  then have "(from_id d, to_id d, k + 1) \<in> set (map (\<lambda>de. (from_id de, to_id de, k + 1))
          (filter (\<lambda>de. from_id de = x \<and> tenant_id de = t \<and> k < 20) es))"
    by (rule map_mem [of _ _ "\<lambda>de. (from_id de, to_id de, k + 1)"])
  then show "(x, to_id d, Suc k) \<in> set (case (f, x, k) of (f, t', depth) \<Rightarrow>
        map (\<lambda>de. (from_id de, to_id de, depth + 1))
          (filter (\<lambda>de. from_id de = t' \<and> tenant_id de = t \<and> depth < 20) es))"
    using assms(5) by simp
qed


lemma path_rounds_second:
  "x \<in> set (path_step es t working) \<Longrightarrow> x \<in> set (path_rounds (Suc (Suc k)) es t working)"
  by simp

lemma would_cycle_two_steps:
  assumes "d1 \<in> set es" "tenant_id d1 = t" "from_id d1 = a" "to_id d1 = b"
    and "d2 \<in> set es" "tenant_id d2 = t" "from_id d2 = b" "to_id d2 = c"
  shows "would_cycle es t a c"
proof -
  have b: "(a, b, 1) \<in> set (path_base es t a)"
    using path_base_mem [OF assms(1-3)] assms(4) by simp
  have "(1::nat) < 20" by simp
  from path_step_mem [OF b this assms(5-7)] assms(8)
  have "(b, c, Suc 1) \<in> set (path_step es t (path_base es t a))" by simp
  then have "(b, c, Suc 1) \<in> set (path_rounds (Suc (Suc 18)) es t (path_base es t a))"
    by (rule path_rounds_second)
  moreover have "(20::nat) = Suc (Suc 18)" by simp
  ultimately have m: "(b, c, Suc 1) \<in> set (dependency_path es t a)"
    unfolding dependency_path_def by (simp only:)
  have "(b, c, Suc 1) \<in> set (filter (\<lambda>r. fst (snd r) = c) (dependency_path es t a))"
    using m by simp
  then have "filter (\<lambda>r. fst (snd r) = c) (dependency_path es t a) \<noteq> []"
    by (metis empty_iff empty_set)
  then show ?thesis
    unfolding would_cycle_def .
qed


lemma validateWorkItemsExist_ok:
  assumes "\<And>i. i \<in> set ids \<Longrightarrow> \<exists>r \<in> set (work_items w). wi_id r = i \<and> wi_tenant_id r = user_tenant_id user"
  shows "validateWorkItemsExist user ids w = Inr ()"
proof -
  let ?found = "map wi_id (filter (\<lambda>r. wi_tenant_id r = user_tenant_id user
                                          \<and> wi_id r \<in> set ids) (work_items w))"
  have "i \<in> set ?found" if "i \<in> set ids" for i
  proof -
    from assms [OF that] obtain r where r: "r \<in> set (work_items w)" "wi_id r = i"
      "wi_tenant_id r = user_tenant_id user" by blast
    then have "r \<in> set (filter (\<lambda>r. wi_tenant_id r = user_tenant_id user
                                          \<and> wi_id r \<in> set ids) (work_items w))"
      using that by simp
    from map_mem [OF this, of wi_id] r(2) show ?thesis by simp
  qed
  then have "filter (\<lambda>i. i \<notin> set ?found) ids = []"
    by (simp add: filter_empty_conv)
  then show ?thesis
    by (simp add: validateWorkItemsExist_def)
qed


lemma createDependency_cycle:
  assumes "validateWorkItemsExist user [req_from_id data, req_to_id data] w = Inr ()"
    and "would_cycle (dependency_edges w) (user_tenant_id user) (req_to_id data) (req_from_id data)"
  shows "createDependency user data newId now w
         = (Inl (Error (''CYCLE_DETECTED: Creating this dependency would create a cycle: ''
                        @ req_to_id data @ '' -> '' @ req_from_id data)), w)"
proof -
  have "createDependency_callback user data newId now w
         = (Inl (Error (''CYCLE_DETECTED: Creating this dependency would create a cycle: ''
                        @ req_to_id data @ '' -> '' @ req_from_id data)), w)"
    unfolding createDependency_callback_def wouldCreateCycle_def using assms
    by (simp add: Let_def)
  then show ?thesis
    unfolding createDependency_def transaction_def by simp
qed

text \<open>
  C4 (as amended): when the tenant's stored edges contain A -> B and B -> C and the
  work items A and C exist in the tenant, \<open>createDependency\<close> for the edge C -> A
  fails with a \<open>CYCLE_DETECTED\<close> error whose chain names the two endpoints of the
  requested edge only, \<open>A -> C\<close> (\<open>to_id -> from_id\<close>); the world after the failed
  call is the world before it.
\<close>

theorem cycle_rejected_with_endpoints:
  assumes "ia \<in> set (work_items w)" "wi_id ia = a" "wi_tenant_id ia = user_tenant_id user"
    and "ic \<in> set (work_items w)" "wi_id ic = c" "wi_tenant_id ic = user_tenant_id user"
    and "d1 \<in> set (dependency_edges w)" "tenant_id d1 = user_tenant_id user"
        "from_id d1 = a" "to_id d1 = b"
    and "d2 \<in> set (dependency_edges w)" "tenant_id d2 = user_tenant_id user"
        "from_id d2 = b" "to_id d2 = c"
    and "req_from_id data = c" "req_to_id data = a"
  shows "createDependency user data newId now w
         = (Inl (Error (''CYCLE_DETECTED: Creating this dependency would create a cycle: ''
                        @ a @ '' -> '' @ c)), w)"
proof -
  have "\<exists>r \<in> set (work_items w). wi_id r = i \<and> wi_tenant_id r = user_tenant_id user"
    if "i \<in> set [c, a]" for i
    using that assms(1-6) by auto
  then have v: "validateWorkItemsExist user [c, a] w = Inr ()"
    by (rule validateWorkItemsExist_ok)
  have wc: "would_cycle (dependency_edges w) (user_tenant_id user) a c"
    using assms(7-14) by (rule would_cycle_two_steps)
  show ?thesis
    using createDependency_cycle [of user data w newId now] v wc assms(15,16) by simp
qed


theorem cycle_rejected_with_endpoints_witness:
  "createDependency example_user (example_request ''C'' ''A'') ''id1'' 1000 world_abc
     = (Inl (Error ''CYCLE_DETECTED: Creating this dependency would create a cycle: A -> C''), world_abc)"
  using cycle_rejected_with_endpoints [of "example_item ''A''" world_abc "''A''" example_user
      "example_item ''C''" "''C''" "example_row ''A'' ''B''" "''B''" "example_row ''B'' ''C''"
      "example_request ''C'' ''A''" "''id1''" 1000]
  by (simp add: example_defs)

lemma world_abc_would_cycle: "would_cycle (dependency_edges world_abc) ''T'' ''A'' ''C''"
  by (rule would_cycle_two_steps [of "example_row ''A'' ''B''" _ _ _ "''B''" "example_row ''B'' ''C''"])
     (simp_all add: example_defs)

lemma world_abc_validate:
  "validateWorkItemsExist example_user [''C'', ''A''] world_abc = Inr ()"
  by (simp add: validateWorkItemsExist_def example_defs)

text \<open>
  C4 (as stated) fails: with A -> B and B -> C stored, the message for C -> A is
  \<open>... would create a cycle: A -> C\<close>. It contains neither the full cycle
  \<open>A -> B -> C -> A\<close> nor a rotation of it, nor the node B at all.
\<close>

theorem cycle_message_lacks_chain:
  "createDependency example_user (example_request ''C'' ''A'') ''id1'' 1000 world_abc
     = (Inl (Error ''CYCLE_DETECTED: Creating this dependency would create a cycle: A -> C''), world_abc)
   \<and> \<not> str_includes ''CYCLE_DETECTED: Creating this dependency would create a cycle: A -> C'' ''A -> B -> C -> A''
   \<and> \<not> str_includes ''CYCLE_DETECTED: Creating this dependency would create a cycle: A -> C'' ''B -> C -> A -> B''
   \<and> \<not> str_includes ''CYCLE_DETECTED: Creating this dependency would create a cycle: A -> C'' ''C -> A -> B -> C''
   \<and> \<not> str_includes ''CYCLE_DETECTED: Creating this dependency would create a cycle: A -> C'' ''B''"
proof -
  have "createDependency example_user (example_request ''C'' ''A'') ''id1'' 1000 world_abc
     = (Inl (Error ''CYCLE_DETECTED: Creating this dependency would create a cycle: A -> C''), world_abc)"
    using createDependency_cycle [of example_user "example_request ''C'' ''A''" world_abc "''id1''" 1000]
      world_abc_would_cycle world_abc_validate
    by (simp add: example_request_def example_user_def)
  then show ?thesis by simp
qed


section \<open>A filtered graph keeps dangling edges\<close>

text \<open>
  C7: with work items A and B and the edge A -> B stored, the graph built for the
  filter \<open>[A]\<close> has the node A only and still has the edge A -> B, whose \<open>to\<close>
  endpoint is not a node; \<open>getDependencyGraph\<close> then throws \<open>TypeError\<close> in the
  backward pass (stack depth 2 or more), where \<open>nodeMap.get(nodeId)!\<close> is \<open>undefined\<close>.
\<close>

theorem filtered_graph_dangling_edge:
  "map node_id (nodes (buildDependencyGraph (select_work_items example_user (Some [''A'']) world_ab)
          (select_dependencies example_user (Some [''A'']) world_ab))) = [''A'']
   \<and> map (\<lambda>e. (e_from e, e_to e))
        (edges (buildDependencyGraph (select_work_items example_user (Some [''A'']) world_ab)
          (select_dependencies example_user (Some [''A'']) world_ab))) = [(''A'', ''B'')]
   \<and> getDependencyGraph (Suc (Suc k)) now example_user (Some [''A'']) world_ab = Inl TypeError"
  by (simp add: getDependencyGraph_def select_work_items_def select_dependencies_def
      buildDependencyGraph_def calculateCriticalPath_def cpm_passes_def math_max_def nodeMap_def
      example_defs estimateDuration_def
      cpm_env_of_def adjacencyList_def reverseAdjacencyList_def emptyAdjacency_def lag_of_def
      get_number_def get_js_number_def annotate_node_def Let_def)

section \<open>The maps of the critical path method\<close>

lemma map_of_fold_update_const:
  "map_of (fold (\<lambda>n m. AList.update (f n) c m) ns m0) k
     = (if k \<in> f ` set ns then Some c else map_of m0 k)"
  by (induction ns arbitrary: m0) (auto simp: update_conv')

lemma map_of_emptyAdjacency:
  "map_of (emptyAdjacency ns) k = (if k \<in> node_id ` set ns then Some [] else None)"
  unfolding emptyAdjacency_def by (simp add: map_of_fold_update_const)

lemma map_of_fold_push:
  "map_of (fold (\<lambda>e m. AList.map_entry (kf e) (\<lambda>l. l @ [vf e]) m) es m0) k
     = map_option (\<lambda>l. l @ map vf (filter (\<lambda>e. kf e = k) es)) (map_of m0 k)"
proof (induction es arbitrary: m0)
  case Nil
  show ?case by (cases "map_of m0 k") simp_all
next
  case (Cons e es)
  show ?case
    by (cases "map_of m0 k") (auto simp: Cons.IH map_of_map_entry)
qed

lemma map_of_adjacencyList:
  "map_of (adjacencyList g) k
     = (if k \<in> node_ids g then Some (successors_of g k) else None)"
  unfolding adjacencyList_def successors_of_def node_ids_def
  by (simp add: map_of_fold_push map_of_emptyAdjacency)

lemma map_of_reverseAdjacencyList:
  "map_of (reverseAdjacencyList g) k
     = (if k \<in> node_ids g then Some (predecessors_of g k) else None)"
  unfolding reverseAdjacencyList_def predecessors_of_def node_ids_def
  by (simp add: map_of_fold_push map_of_emptyAdjacency)

lemma map_of_fold_update_last:
  "map_of (fold (\<lambda>n m. AList.update (node_id n) n m) ns m0) k
     = (if filter (\<lambda>n. node_id n = k) ns = [] then map_of m0 k
        else Some (last (filter (\<lambda>n. node_id n = k) ns)))"
  by (induction ns arbitrary: m0) (auto simp: update_conv')

lemma filter_distinct_key:
  "distinct (map f xs) \<Longrightarrow> x \<in> set xs \<Longrightarrow> filter (\<lambda>y. f y = f x) xs = [x]"
proof (induction xs)
  case Nil
  then show ?case by simp
next
  case (Cons a xs)
  show ?case
  proof (cases "a = x")
    case True
    have "f x \<notin> f ` set xs"
      using Cons.prems(1) True by simp
    then have "filter (\<lambda>y. f y = f x) xs = []"
      unfolding filter_empty_conv by (metis imageI)
    then show ?thesis using True by simp
  next
    case False
    then have "x \<in> set xs" using Cons.prems(2) by simp
    moreover have "f a \<noteq> f x" using Cons.prems(1) \<open>x \<in> set xs\<close> by auto
    ultimately show ?thesis using Cons by simp
  qed
qed

lemma map_of_nodeMap:
  assumes "distinct (map node_id ns)" "n \<in> set ns"
  shows "map_of (nodeMap ns) (node_id n) = Some n"
  unfolding nodeMap_def map_of_fold_update_last
  using filter_distinct_key [OF assms] by simp

lemma map_of_nodeMap_None:
  "k \<notin> node_id ` set ns \<Longrightarrow> map_of (nodeMap ns) k = None"
  unfolding nodeMap_def map_of_fold_update_last
  by (auto simp: filter_empty_conv)


subsection \<open>Graph facts\<close>

lemma edge_rel_iff: "(a, b) \<in> edge_rel g \<longleftrightarrow> (\<exists>e \<in> set (edges g). e_from e = a \<and> e_to e = b)"
  unfolding edge_rel_def by (auto simp: image_iff)

lemma pred_edge: "p \<in> set (predecessors_of g k) \<longleftrightarrow> (p, k) \<in> edge_rel g"
  unfolding predecessors_of_def edge_rel_iff by (auto simp: image_iff)

lemma succ_edge: "s \<in> set (successors_of g k) \<longleftrightarrow> (k, s) \<in> edge_rel g"
  unfolding successors_of_def edge_rel_iff by (auto simp: image_iff)

lemma finite_edge_rel: "finite (edge_rel g)"
  unfolding edge_rel_def by simp

lemma well_formed_endpoints:
  assumes "well_formed g" "(a, b) \<in> edge_rel g"
  shows "a \<in> node_ids g" "b \<in> node_ids g"
  using assms unfolding well_formed_def edge_rel_iff list_all_iff by auto

lemma rtrancl_source_in_ids:
  assumes "well_formed g" "(a, k) \<in> (edge_rel g)\<^sup>*" "k \<in> node_ids g"
  shows "a \<in> node_ids g"
  using assms(2)
proof (cases rule: converse_rtranclE)
  case base
  then show ?thesis using assms(3) by simp
next
  case (step y)
  then show ?thesis using well_formed_endpoints(1) [OF assms(1)] by blast
qed

lemma ancestors_subset_ids:
  "well_formed g \<Longrightarrow> k \<in> node_ids g \<Longrightarrow> ancestors g k \<subseteq> node_ids g"
  unfolding ancestors_def using rtrancl_source_in_ids by blast

lemma finite_node_ids: "finite (node_ids g)"
  unfolding node_ids_def by simp

lemma card_node_ids: "card (node_ids g) \<le> length (nodes g)"
  unfolding node_ids_def using card_length [of "map node_id (nodes g)"] by simp

lemma finite_ancestors: "well_formed g \<Longrightarrow> k \<in> node_ids g \<Longrightarrow> finite (ancestors g k)"
  using ancestors_subset_ids finite_node_ids finite_subset by blast

lemma card_ancestors_le:
  "well_formed g \<Longrightarrow> k \<in> node_ids g \<Longrightarrow> card (ancestors g k) \<le> length (nodes g)"
  using card_mono [OF finite_node_ids ancestors_subset_ids] card_node_ids
  by (meson le_trans)

lemma self_in_ancestors: "k \<in> ancestors g k"
  unfolding ancestors_def by simp

lemma pred_not_descendant:
  assumes "acyclic (edge_rel g)" "(p, k) \<in> edge_rel g"
  shows "k \<notin> ancestors g p"
proof
  assume "k \<in> ancestors g p"
  then have "(k, p) \<in> (edge_rel g)\<^sup>*" unfolding ancestors_def by simp
  then have "(k, k) \<in> (edge_rel g)\<^sup>+" using assms(2) by (rule rtrancl_into_trancl1)
  with assms(1) show False unfolding acyclic_def by blast
qed

lemma pred_ancestors_subset:
  assumes "(p, k) \<in> edge_rel g"
  shows "ancestors g p \<subseteq> ancestors g k"
  unfolding ancestors_def using assms by (auto intro: rtrancl_into_rtrancl)

lemma pred_ancestors_card:
  assumes "well_formed g" "acyclic (edge_rel g)" "k \<in> node_ids g" "(p, k) \<in> edge_rel g"
  shows "card (ancestors g p) < card (ancestors g k)"
proof -
  have "ancestors g p \<subset> ancestors g k"
    using pred_ancestors_subset [OF assms(4)] pred_not_descendant [OF assms(2,4)]
      self_in_ancestors [of k g] by blast
  then show ?thesis
    using finite_ancestors [OF assms(1,3)] by (rule psubset_card_mono [rotated])
qed

lemma no_self_edge: "acyclic (edge_rel g) \<Longrightarrow> (k, k) \<notin> edge_rel g"
  unfolding acyclic_def by blast


subsection \<open>Forward pass\<close>

lemma forward_value_cong:
  assumes "\<And>p. p \<in> set (predecessors_of g k) \<Longrightarrow> ef p = ef' p"
  shows "forward_value g ef k = forward_value g ef' k"
proof -
  have "fold (\<lambda>p m. max m (the (ef p) + lag_of (edges g) p k)) ps m0
        = fold (\<lambda>p m. max m (the (ef' p) + lag_of (edges g) p k)) ps m0"
    if "set ps \<subseteq> set (predecessors_of g k)" for ps m0
    using that by (induction ps arbitrary: m0) (simp_all add: assms)
  then show ?thesis unfolding forward_value_def by simp
qed

lemma forward_loop_ok:
  assumes recur: "\<And>p st. p \<in> set ps \<Longrightarrow> forward_inv g st
            \<Longrightarrow> \<exists>v st'. recur p st = Inr (v, st') \<and> forward_post g p st v st'"
    and inv: "forward_inv g st"
  shows "\<exists>m' st'. forward_loop recur es k ps m st = Inr (m', st')
           \<and> forward_inv g st' \<and> EFm st \<subseteq>\<^sub>m EFm st'
           \<and> dom (EFm st') \<subseteq> dom (EFm st) \<union> (\<Union>p \<in> set ps. ancestors g p)
           \<and> (\<forall>p \<in> set ps. EFm st' p \<noteq> None)
           \<and> m' = fold (\<lambda>p m. max m (the (EFm st' p) + lag_of es p k)) ps m"
  using recur inv
proof (induction ps arbitrary: m st)
  case Nil
  then show ?case by simp
next
  case (Cons p rest)
  from Cons.prems(1) [of p st] Cons.prems(2)
  obtain v st1 where r: "recur p st = Inr (v, st1)" and post: "forward_post g p st v st1"
    by auto
  from post have inv1: "forward_inv g st1" and efp: "EFm st1 p = Some v"
    and le1: "EFm st \<subseteq>\<^sub>m EFm st1"
    and dom1: "dom (EFm st1) \<subseteq> dom (EFm st) \<union> ancestors g p"
    unfolding forward_post_def by auto
  have rec': "\<And>q st. q \<in> set rest \<Longrightarrow> forward_inv g st
            \<Longrightarrow> \<exists>v st'. recur q st = Inr (v, st') \<and> forward_post g q st v st'"
    using Cons.prems(1) by simp
  from Cons.IH [OF rec' inv1, of "max m (v + lag_of es p k)"]
  obtain m' st' where
    l: "forward_loop recur es k rest (max m (v + lag_of es p k)) st1 = Inr (m', st')"
    and inv': "forward_inv g st'" and le': "EFm st1 \<subseteq>\<^sub>m EFm st'"
    and dom': "dom (EFm st') \<subseteq> dom (EFm st1) \<union> (\<Union>q \<in> set rest. ancestors g q)"
    and all': "\<forall>q \<in> set rest. EFm st' q \<noteq> None"
    and m': "m' = fold (\<lambda>q m. max m (the (EFm st' q) + lag_of es q k)) rest
                    (max m (v + lag_of es p k))"
    by blast
  have efp': "EFm st' p = Some v"
    using le' efp unfolding map_le_def by (metis domI)
  have "forward_loop recur es k (p # rest) m st = Inr (m', st')"
    using r l by simp
  moreover have "EFm st \<subseteq>\<^sub>m EFm st'"
    using le1 le' by (rule map_le_trans)
  moreover have "dom (EFm st') \<subseteq> dom (EFm st) \<union> (\<Union>q \<in> set (p # rest). ancestors g q)"
  proof
    fix x assume "x \<in> dom (EFm st')"
    with dom' have "x \<in> dom (EFm st1) \<or> x \<in> (\<Union>q \<in> set rest. ancestors g q)" by blast
    with dom1 have "x \<in> dom (EFm st) \<or> x \<in> ancestors g p
                    \<or> x \<in> (\<Union>q \<in> set rest. ancestors g q)" by blast
    then show "x \<in> dom (EFm st) \<union> (\<Union>q \<in> set (p # rest). ancestors g q)" by auto
  qed
  moreover have "\<forall>q \<in> set (p # rest). EFm st' q \<noteq> None"
    using all' efp' by simp
  moreover have "m' = fold (\<lambda>q m. max m (the (EFm st' q) + lag_of es q k)) (p # rest) m"
    using m' efp' by simp
  ultimately show ?case using inv' by blast
qed


lemma node_lookup:
  assumes "well_formed g" "k \<in> node_ids g"
  shows "\<exists>n. n \<in> set (nodes g) \<and> node_id n = k \<and> map_of (nodeMap (nodes g)) k = Some n"
proof -
  from assms(2) obtain n where n: "n \<in> set (nodes g)" "node_id n = k"
    unfolding node_ids_def by auto
  have "distinct (map node_id (nodes g))" using assms(1) unfolding well_formed_def by simp
  from map_of_nodeMap [OF this n(1)] n show ?thesis by auto
qed

lemma forward_store:
  assumes wf: "well_formed g" and ac: "acyclic (edge_rel g)"
    and inv1: "forward_inv g st1" and fresh: "EFm st1 k = None" and kin: "k \<in> node_ids g"
    and preds: "\<forall>p \<in> set (predecessors_of g k). EFm st1 p \<noteq> None"
    and m: "m = forward_value g (EFm st1) k"
    and st': "st' = st1\<lparr>earliestStart := AList.update k m (earliestStart st1),
                       earliestFinish := AList.update k (m + duration_of g k) (earliestFinish st1)\<rparr>"
  shows "forward_inv g st'" and "EFm st' k = Some (m + duration_of g k)"
    and "EFm st1 \<subseteq>\<^sub>m EFm st'" and "dom (EFm st') = insert k (dom (EFm st1))"
proof -
  have ef': "EFm st' = (EFm st1)(k \<mapsto> m + duration_of g k)"
    and es': "ESm st' = (ESm st1)(k \<mapsto> m)"
    unfolding st' by (simp_all add: update_conv')
  show "EFm st' k = Some (m + duration_of g k)" unfolding ef' by simp
  show "EFm st1 \<subseteq>\<^sub>m EFm st'" unfolding ef' using fresh by (auto simp: map_le_def)
  show "dom (EFm st') = insert k (dom (EFm st1))" unfolding ef' by simp
  have same: "EFm st' p = EFm st1 p" if "p \<noteq> k" for p
    unfolding ef' using that by simp
  have predk: "p \<noteq> k" if "p \<in> set (predecessors_of g k)" for p
    using that no_self_edge [OF ac, of k] unfolding pred_edge by auto
  have valk: "forward_value g (EFm st') k = m"
    unfolding m by (rule forward_value_cong) (simp add: same predk)
  show "forward_inv g st'"
    unfolding forward_inv_def
  proof (intro allI impI)
    fix j v assume jv: "EFm st' j = Some v"
    show "j \<in> node_ids g
        \<and> (\<forall>p \<in> set (predecessors_of g j). EFm st' p \<noteq> None)
        \<and> ESm st' j = Some (forward_value g (EFm st') j)
        \<and> v = forward_value g (EFm st') j + duration_of g j"
    proof (cases "j = k")
      case True
      have "v = m + duration_of g k" using jv unfolding ef' True by simp
      moreover have "\<forall>p \<in> set (predecessors_of g k). EFm st' p \<noteq> None"
        using preds same predk by simp
      moreover have "ESm st' k = Some m" unfolding es' by simp
      ultimately show ?thesis using True kin valk by simp
    next
      case False
      then have jv1: "EFm st1 j = Some v" using jv same by simp
      from inv1 [unfolded forward_inv_def, rule_format, OF jv1]
      have a: "j \<in> node_ids g" and b: "\<forall>p \<in> set (predecessors_of g j). EFm st1 p \<noteq> None"
        and c: "ESm st1 j = Some (forward_value g (EFm st1) j)"
        and d: "v = forward_value g (EFm st1) j + duration_of g j"
        by auto
      have pj: "p \<noteq> k" if "p \<in> set (predecessors_of g j)" for p
        using b that fresh by auto
      have val: "forward_value g (EFm st') j = forward_value g (EFm st1) j"
        by (rule forward_value_cong) (simp add: same pj)
      have "\<forall>p \<in> set (predecessors_of g j). EFm st' p \<noteq> None"
        using b same pj by simp
      moreover have "ESm st' j = Some (forward_value g (EFm st') j)"
        unfolding es' val using c False by simp
      ultimately show ?thesis using a d val by simp
    qed
  qed
qed


lemma env_simps:
  "env_nodeMap (cpm_env_of g) = nodeMap (nodes g)"
  "env_adjacencyList (cpm_env_of g) = adjacencyList g"
  "env_reverseAdjacencyList (cpm_env_of g) = reverseAdjacencyList g"
  "env_edges (cpm_env_of g) = edges g"
  unfolding cpm_env_of_def by simp_all

lemma forwardPass_ok:
  assumes wf: "well_formed g" and ac: "acyclic (edge_rel g)"
  shows "card (ancestors g k) \<le> depth \<Longrightarrow> k \<in> node_ids g \<Longrightarrow> forward_inv g st
         \<Longrightarrow> \<exists>v st'. forwardPass depth (cpm_env_of g) k st = Inr (v, st')
                 \<and> forward_post g k st v st'"
proof (induction depth arbitrary: k st)
  case 0
  have "card (ancestors g k) \<noteq> 0"
    using finite_ancestors [OF wf "0.prems"(2)] self_in_ancestors [of k g] by auto
  with "0.prems"(1) show ?case by simp
next
  case (Suc d)
  note kin = Suc.prems(2) and inv = Suc.prems(3)
  show ?case
  proof (cases "EFm st k")
    case (Some v)
    then have "forwardPass (Suc d) (cpm_env_of g) k st = Inr (v, st)" by simp
    moreover have "forward_post g k st v st"
      unfolding forward_post_def using inv Some by simp
    ultimately show ?thesis by blast
  next
    case None
    let ?ps = "predecessors_of g k"
    have recur: "\<exists>v st'. forwardPass d (cpm_env_of g) p st0 = Inr (v, st')
                   \<and> forward_post g p st0 v st'"
      if "p \<in> set ?ps" "forward_inv g st0" for p st0
    proof -
      have e: "(p, k) \<in> edge_rel g" using that(1) unfolding pred_edge .
      have "card (ancestors g p) < card (ancestors g k)"
        using pred_ancestors_card [OF wf ac kin e] .
      then have "card (ancestors g p) \<le> d" using Suc.prems(1) by simp
      moreover have "p \<in> node_ids g" using well_formed_endpoints(1) [OF wf e] .
      ultimately show ?thesis using Suc.IH that(2) by blast
    qed
    from forward_loop_ok [of ?ps g "forwardPass d (cpm_env_of g)" st "edges g" k 0, OF recur inv]
    obtain m st1 where
      l: "forward_loop (forwardPass d (cpm_env_of g)) (edges g) k ?ps 0 st = Inr (m, st1)"
      and inv1: "forward_inv g st1" and le1: "EFm st \<subseteq>\<^sub>m EFm st1"
      and dom1: "dom (EFm st1) \<subseteq> dom (EFm st) \<union> (\<Union>p \<in> set ?ps. ancestors g p)"
      and all1: "\<forall>p \<in> set ?ps. EFm st1 p \<noteq> None"
      and m: "m = fold (\<lambda>p m. max m (the (EFm st1 p) + lag_of (edges g) p k)) ?ps 0"
      by blast
    have fresh: "EFm st1 k = None"
    proof (rule ccontr)
      assume "EFm st1 k \<noteq> None"
      then have "k \<in> dom (EFm st1)" by auto
      with dom1 None obtain p where "p \<in> set ?ps" "k \<in> ancestors g p" by auto
      then show False using pred_not_descendant [OF ac, of p k] unfolding pred_edge by simp
    qed
    from node_lookup [OF wf kin] obtain n where
      n: "map_of (nodeMap (nodes g)) k = Some n" by blast
    then have dur: "duration_of g k = duration_days n" unfolding duration_of_def by simp
    define st' where "st' = st1\<lparr>earliestStart := AList.update k m (earliestStart st1),
                       earliestFinish := AList.update k (m + duration_of g k) (earliestFinish st1)\<rparr>"
    have mv: "m = forward_value g (EFm st1) k" unfolding forward_value_def m ..
    note fs = forward_store [OF wf ac inv1 fresh kin all1 mv st'_def]
    have run: "forwardPass (Suc d) (cpm_env_of g) k st = Inr (m + duration_of g k, st')"
      using None l n kin unfolding st'_def dur
      by (simp add: env_simps map_of_reverseAdjacencyList Let_def)
    have "EFm st \<subseteq>\<^sub>m EFm st'" using le1 fs(3) by (rule map_le_trans)
    moreover have "dom (EFm st') \<subseteq> dom (EFm st) \<union> ancestors g k"
    proof
      fix x assume "x \<in> dom (EFm st')"
      then have "x = k \<or> x \<in> dom (EFm st1)" unfolding fs(4) by simp
      then have "x = k \<or> x \<in> dom (EFm st) \<or> (\<exists>p \<in> set ?ps. x \<in> ancestors g p)"
        using dom1 by blast
      moreover have "ancestors g p \<subseteq> ancestors g k" if "p \<in> set ?ps" for p
        using that pred_ancestors_subset [of p k g] unfolding pred_edge by simp
      ultimately show "x \<in> dom (EFm st) \<union> ancestors g k"
        using self_in_ancestors [of k g] by blast
    qed
    ultimately have "forward_post g k st (m + duration_of g k) st'"
      unfolding forward_post_def using fs(1,2) by simp
    with run show ?thesis by blast
  qed
qed


lemma forward_all_ok:
  assumes wf: "well_formed g" and ac: "acyclic (edge_rel g)"
    and depth: "length (nodes g) \<le> depth"
  shows "set ns \<subseteq> set (nodes g) \<Longrightarrow> forward_inv g st
         \<Longrightarrow> \<exists>st'. forward_all depth (cpm_env_of g) ns st = Inr st'
                 \<and> forward_inv g st' \<and> EFm st \<subseteq>\<^sub>m EFm st'
                 \<and> node_id ` set ns \<subseteq> dom (EFm st')"
proof (induction ns arbitrary: st)
  case Nil
  then show ?case by simp
next
  case (Cons n ns)
  have kin: "node_id n \<in> node_ids g" using Cons.prems(1) unfolding node_ids_def by simp
  have "card (ancestors g (node_id n)) \<le> depth"
    using card_ancestors_le [OF wf kin] depth by simp
  from forwardPass_ok [OF wf ac this kin Cons.prems(2)]
  obtain v st1 where r: "forwardPass depth (cpm_env_of g) (node_id n) st = Inr (v, st1)"
    and post: "forward_post g (node_id n) st v st1" by blast
  from post have inv1: "forward_inv g st1" and ef1: "EFm st1 (node_id n) = Some v"
    and le1: "EFm st \<subseteq>\<^sub>m EFm st1"
    unfolding forward_post_def by auto
  have "set ns \<subseteq> set (nodes g)" using Cons.prems(1) by simp
  from Cons.IH [OF this inv1]
  obtain st' where a: "forward_all depth (cpm_env_of g) ns st1 = Inr st'"
    and inv': "forward_inv g st'" and le': "EFm st1 \<subseteq>\<^sub>m EFm st'"
    and dom': "node_id ` set ns \<subseteq> dom (EFm st')" by blast
  have "EFm st' (node_id n) = Some v"
    using le' ef1 unfolding map_le_def by (metis domI)
  then have "node_id ` set (n # ns) \<subseteq> dom (EFm st')" using dom' by auto
  moreover have "forward_all depth (cpm_env_of g) (n # ns) st = Inr st'"
    using r a by simp
  moreover have "EFm st \<subseteq>\<^sub>m EFm st'" using le1 le' by (rule map_le_trans)
  ultimately show ?case using inv' by blast
qed

lemma forward_inv_empty: "forward_inv g \<lparr>earliestStart = [], earliestFinish = []\<rparr>"
  unfolding forward_inv_def by simp

lemma forward_final:
  assumes wf: "well_formed g" and ac: "acyclic (edge_rel g)"
    and depth: "length (nodes g) \<le> depth"
  shows "\<exists>fw. forward_all depth (cpm_env_of g) (nodes g)
                 \<lparr>earliestStart = [], earliestFinish = []\<rparr> = Inr fw
              \<and> forward_inv g fw \<and> dom (EFm fw) = node_ids g"
proof -
  from forward_all_ok [OF wf ac depth subset_refl forward_inv_empty]
  obtain fw where a: "forward_all depth (cpm_env_of g) (nodes g)
                 \<lparr>earliestStart = [], earliestFinish = []\<rparr> = Inr fw"
    and inv: "forward_inv g fw" and sub: "node_id ` set (nodes g) \<subseteq> dom (EFm fw)" by blast
  have "dom (EFm fw) \<subseteq> node_ids g"
    using inv unfolding forward_inv_def by blast
  moreover have "node_ids g \<subseteq> dom (EFm fw)" using sub unfolding node_ids_def by simp
  ultimately show ?thesis using a inv by blast
qed

subsection \<open>Backward pass\<close>

lemma self_in_descendants: "k \<in> descendants g k"
  unfolding descendants_def by simp

lemma rtrancl_target_in_ids:
  assumes "well_formed g" "(k, d) \<in> (edge_rel g)\<^sup>*" "k \<in> node_ids g"
  shows "d \<in> node_ids g"
  using assms(2)
proof (cases rule: rtranclE)
  case base
  then show ?thesis using assms(3) by simp
next
  case (step y)
  then show ?thesis using well_formed_endpoints(2) [OF assms(1)] by blast
qed

lemma descendants_subset_ids:
  "well_formed g \<Longrightarrow> k \<in> node_ids g \<Longrightarrow> descendants g k \<subseteq> node_ids g"
  unfolding descendants_def using rtrancl_target_in_ids by blast

lemma finite_descendants: "well_formed g \<Longrightarrow> k \<in> node_ids g \<Longrightarrow> finite (descendants g k)"
  using descendants_subset_ids finite_node_ids finite_subset by blast

lemma card_descendants_le:
  "well_formed g \<Longrightarrow> k \<in> node_ids g \<Longrightarrow> card (descendants g k) \<le> length (nodes g)"
  using card_mono [OF finite_node_ids descendants_subset_ids] card_node_ids
  by (meson le_trans)

lemma succ_not_ancestor:
  assumes "acyclic (edge_rel g)" "(k, q) \<in> edge_rel g"
  shows "k \<notin> descendants g q"
proof
  assume "k \<in> descendants g q"
  then have "(q, k) \<in> (edge_rel g)\<^sup>*" unfolding descendants_def by simp
  with assms(2) have "(k, k) \<in> (edge_rel g)\<^sup>+" by (rule rtrancl_into_trancl2)
  with assms(1) show False unfolding acyclic_def by blast
qed

lemma succ_descendants_subset:
  assumes "(k, q) \<in> edge_rel g"
  shows "descendants g q \<subseteq> descendants g k"
  unfolding descendants_def using assms by (auto intro: converse_rtrancl_into_rtrancl)

lemma succ_descendants_card:
  assumes "well_formed g" "acyclic (edge_rel g)" "k \<in> node_ids g" "(k, q) \<in> edge_rel g"
  shows "card (descendants g q) < card (descendants g k)"
proof -
  have "descendants g q \<subset> descendants g k"
    using succ_descendants_subset [OF assms(4)] succ_not_ancestor [OF assms(2,4)]
      self_in_descendants [of k g] by blast
  then show ?thesis
    using finite_descendants [OF assms(1,3)] by (rule psubset_card_mono [rotated])
qed

lemma backward_value_cong:
  assumes "\<And>q. q \<in> set (successors_of g k) \<Longrightarrow> ls q = ls' q"
  shows "backward_value g ef pc ls k = backward_value g ef pc ls' k"
proof -
  have "fold (\<lambda>q m. js_min m (js_sub (the (ls q)) (Finite (lag_of (edges g) k q)))) qs m0
        = fold (\<lambda>q m. js_min m (js_sub (the (ls' q)) (Finite (lag_of (edges g) k q)))) qs m0"
    if "set qs \<subseteq> set (successors_of g k)" for qs m0
    using that by (induction qs arbitrary: m0) (simp_all add: assms)
  then show ?thesis unfolding backward_value_def by simp
qed


lemma backward_loop_ok:
  assumes recur: "\<And>q st. q \<in> set qs \<Longrightarrow> backward_inv g ef pc st
            \<Longrightarrow> \<exists>v st'. recur q st = Inr (v, st') \<and> backward_post g ef pc q st v st'"
    and inv: "backward_inv g ef pc st"
  shows "\<exists>m' st'. backward_loop recur es k qs m st = Inr (m', st')
           \<and> backward_inv g ef pc st' \<and> LSm st \<subseteq>\<^sub>m LSm st'
           \<and> dom (LSm st') \<subseteq> dom (LSm st) \<union> (\<Union>q \<in> set qs. descendants g q)
           \<and> (\<forall>q \<in> set qs. LSm st' q \<noteq> None)
           \<and> m' = fold (\<lambda>q m. js_min m (js_sub (the (LSm st' q)) (Finite (lag_of es k q)))) qs m"
  using recur inv
proof (induction qs arbitrary: m st)
  case Nil
  then show ?case by simp
next
  case (Cons q rest)
  from Cons.prems(1) [of q st] Cons.prems(2)
  obtain v st1 where r: "recur q st = Inr (v, st1)" and post: "backward_post g ef pc q st v st1"
    by auto
  from post have inv1: "backward_inv g ef pc st1" and lsq: "LSm st1 q = Some v"
    and le1: "LSm st \<subseteq>\<^sub>m LSm st1"
    and dom1: "dom (LSm st1) \<subseteq> dom (LSm st) \<union> descendants g q"
    unfolding backward_post_def by auto
  have rec': "\<And>x st. x \<in> set rest \<Longrightarrow> backward_inv g ef pc st
            \<Longrightarrow> \<exists>v st'. recur x st = Inr (v, st') \<and> backward_post g ef pc x st v st'"
    using Cons.prems(1) by simp
  let ?m1 = "js_min m (js_sub v (Finite (lag_of es k q)))"
  from Cons.IH [OF rec' inv1, of ?m1]
  obtain m' st' where
    l: "backward_loop recur es k rest ?m1 st1 = Inr (m', st')"
    and inv': "backward_inv g ef pc st'" and le': "LSm st1 \<subseteq>\<^sub>m LSm st'"
    and dom': "dom (LSm st') \<subseteq> dom (LSm st1) \<union> (\<Union>x \<in> set rest. descendants g x)"
    and all': "\<forall>x \<in> set rest. LSm st' x \<noteq> None"
    and m': "m' = fold (\<lambda>x m. js_min m (js_sub (the (LSm st' x)) (Finite (lag_of es k x)))) rest ?m1"
    by blast
  have lsq': "LSm st' q = Some v"
    using le' lsq unfolding map_le_def by (metis domI)
  have "backward_loop recur es k (q # rest) m st = Inr (m', st')"
    using r l by simp
  moreover have "LSm st \<subseteq>\<^sub>m LSm st'"
    using le1 le' by (rule map_le_trans)
  moreover have "dom (LSm st') \<subseteq> dom (LSm st) \<union> (\<Union>x \<in> set (q # rest). descendants g x)"
  proof
    fix x assume "x \<in> dom (LSm st')"
    with dom' have "x \<in> dom (LSm st1) \<or> x \<in> (\<Union>y \<in> set rest. descendants g y)" by blast
    with dom1 have "x \<in> dom (LSm st) \<or> x \<in> descendants g q
                    \<or> x \<in> (\<Union>y \<in> set rest. descendants g y)" by blast
    then show "x \<in> dom (LSm st) \<union> (\<Union>y \<in> set (q # rest). descendants g y)" by auto
  qed
  moreover have "\<forall>x \<in> set (q # rest). LSm st' x \<noteq> None"
    using all' lsq' by simp
  moreover have "m' = fold (\<lambda>x m. js_min m (js_sub (the (LSm st' x)) (Finite (lag_of es k x)))) (q # rest) m"
    using m' lsq' by simp
  ultimately show ?case using inv' by blast
qed

lemma backward_store:
  assumes wf: "well_formed g" and ac: "acyclic (edge_rel g)"
    and inv1: "backward_inv g ef pc st1" and fresh: "LSm st1 k = None" and kin: "k \<in> node_ids g"
    and succs: "\<forall>q \<in> set (successors_of g k). LSm st1 q \<noteq> None"
    and m: "m = backward_value g ef pc (LSm st1) k"
    and st': "st' = st1\<lparr>latestFinish := AList.update k m (latestFinish st1),
                       latestStart := AList.update k (js_sub m (Finite (duration_of g k)))
                                        (latestStart st1)\<rparr>"
  shows "backward_inv g ef pc st'"
    and "LSm st' k = Some (js_sub m (Finite (duration_of g k)))"
    and "LSm st1 \<subseteq>\<^sub>m LSm st'" and "dom (LSm st') = insert k (dom (LSm st1))"
proof -
  have ls': "LSm st' = (LSm st1)(k \<mapsto> js_sub m (Finite (duration_of g k)))"
    and lf': "LFm st' = (LFm st1)(k \<mapsto> m)"
    unfolding st' by (simp_all add: update_conv')
  show "LSm st' k = Some (js_sub m (Finite (duration_of g k)))" unfolding ls' by simp
  show "LSm st1 \<subseteq>\<^sub>m LSm st'" unfolding ls' using fresh by (auto simp: map_le_def)
  show "dom (LSm st') = insert k (dom (LSm st1))" unfolding ls' by simp
  have same: "LSm st' q = LSm st1 q" if "q \<noteq> k" for q
    unfolding ls' using that by simp
  have succk: "q \<noteq> k" if "q \<in> set (successors_of g k)" for q
    using that no_self_edge [OF ac, of k] unfolding succ_edge by auto
  have valk: "backward_value g ef pc (LSm st') k = m"
    unfolding m by (rule backward_value_cong) (simp add: same succk)
  show "backward_inv g ef pc st'"
    unfolding backward_inv_def
  proof (intro allI impI)
    fix j v assume jv: "LSm st' j = Some v"
    show "j \<in> node_ids g
        \<and> (\<forall>q \<in> set (successors_of g j). LSm st' q \<noteq> None)
        \<and> LFm st' j = Some (backward_value g ef pc (LSm st') j)
        \<and> v = js_sub (backward_value g ef pc (LSm st') j) (Finite (duration_of g j))"
    proof (cases "j = k")
      case True
      have "v = js_sub m (Finite (duration_of g k))" using jv unfolding ls' True by simp
      moreover have "\<forall>q \<in> set (successors_of g k). LSm st' q \<noteq> None"
        using succs same succk by simp
      moreover have "LFm st' k = Some m" unfolding lf' by simp
      ultimately show ?thesis using True kin valk by simp
    next
      case False
      then have jv1: "LSm st1 j = Some v" using jv same by simp
      from inv1 [unfolded backward_inv_def, rule_format, OF jv1]
      have a: "j \<in> node_ids g" and b: "\<forall>q \<in> set (successors_of g j). LSm st1 q \<noteq> None"
        and c: "LFm st1 j = Some (backward_value g ef pc (LSm st1) j)"
        and d: "v = js_sub (backward_value g ef pc (LSm st1) j) (Finite (duration_of g j))"
        by auto
      have qj: "q \<noteq> k" if "q \<in> set (successors_of g j)" for q
        using b that fresh by auto
      have val: "backward_value g ef pc (LSm st') j = backward_value g ef pc (LSm st1) j"
        by (rule backward_value_cong) (simp add: same qj)
      have "\<forall>q \<in> set (successors_of g j). LSm st' q \<noteq> None"
        using b same qj by simp
      moreover have "LFm st' j = Some (backward_value g ef pc (LSm st') j)"
        unfolding lf' val using c False by simp
      ultimately show ?thesis using a d val by simp
    qed
  qed
qed

lemma backwardPass_ok:
  assumes wf: "well_formed g" and ac: "acyclic (edge_rel g)"
  shows "card (descendants g k) \<le> depth \<Longrightarrow> k \<in> node_ids g \<Longrightarrow> backward_inv g ef pc st
         \<Longrightarrow> \<exists>v st'. backwardPass depth (cpm_env_of g) ef pc k st = Inr (v, st')
                 \<and> backward_post g ef pc k st v st'"
proof (induction depth arbitrary: k st)
  case 0
  have "card (descendants g k) \<noteq> 0"
    using finite_descendants [OF wf "0.prems"(2)] self_in_descendants [of k g] by auto
  with "0.prems"(1) show ?case by simp
next
  case (Suc d)
  note kin = Suc.prems(2) and inv = Suc.prems(3)
  show ?case
  proof (cases "LSm st k")
    case (Some v)
    then have "backwardPass (Suc d) (cpm_env_of g) ef pc k st = Inr (v, st)" by simp
    moreover have "backward_post g ef pc k st v st"
      unfolding backward_post_def using inv Some by simp
    ultimately show ?thesis by blast
  next
    case None
    let ?qs = "successors_of g k"
    have recur: "\<exists>v st'. backwardPass d (cpm_env_of g) ef pc q st0 = Inr (v, st')
                   \<and> backward_post g ef pc q st0 v st'"
      if "q \<in> set ?qs" "backward_inv g ef pc st0" for q st0
    proof -
      have e: "(k, q) \<in> edge_rel g" using that(1) unfolding succ_edge .
      have "card (descendants g q) < card (descendants g k)"
        using succ_descendants_card [OF wf ac kin e] .
      then have "card (descendants g q) \<le> d" using Suc.prems(1) by simp
      moreover have "q \<in> node_ids g" using well_formed_endpoints(2) [OF wf e] .
      ultimately show ?thesis using Suc.IH that(2) by blast
    qed
    have "\<exists>m st1. (if length ?qs = 0 then Inr (get_number ef k, st)
                    else backward_loop (backwardPass d (cpm_env_of g) ef pc) (edges g) k ?qs pc st)
                   = Inr (m, st1)
            \<and> backward_inv g ef pc st1 \<and> LSm st \<subseteq>\<^sub>m LSm st1
            \<and> dom (LSm st1) \<subseteq> dom (LSm st) \<union> (\<Union>q \<in> set ?qs. descendants g q)
            \<and> (\<forall>q \<in> set ?qs. LSm st1 q \<noteq> None)
            \<and> m = backward_value g ef pc (LSm st1) k"
    proof (cases "?qs = []")
      case True
      then show ?thesis using inv by (simp add: backward_value_def)
    next
      case False
      from backward_loop_ok [of ?qs g ef pc "backwardPass d (cpm_env_of g) ef pc" st "edges g" k pc,
          OF recur inv]
      show ?thesis using False by (simp add: backward_value_def)
    qed
    then obtain m st1 where
      l: "(if length ?qs = 0 then Inr (get_number ef k, st)
           else backward_loop (backwardPass d (cpm_env_of g) ef pc) (edges g) k ?qs pc st)
          = Inr (m, st1)"
      and inv1: "backward_inv g ef pc st1" and le1: "LSm st \<subseteq>\<^sub>m LSm st1"
      and dom1: "dom (LSm st1) \<subseteq> dom (LSm st) \<union> (\<Union>q \<in> set ?qs. descendants g q)"
      and all1: "\<forall>q \<in> set ?qs. LSm st1 q \<noteq> None"
      and mv: "m = backward_value g ef pc (LSm st1) k"
      by blast
    have fresh: "LSm st1 k = None"
    proof (rule ccontr)
      assume "LSm st1 k \<noteq> None"
      then have "k \<in> dom (LSm st1)" by auto
      with dom1 None obtain q where "q \<in> set ?qs" "k \<in> descendants g q" by auto
      then show False using succ_not_ancestor [OF ac, of k q] unfolding succ_edge by simp
    qed
    from node_lookup [OF wf kin] obtain n where
      n: "map_of (nodeMap (nodes g)) k = Some n" by blast
    then have dur: "duration_of g k = duration_days n" unfolding duration_of_def by simp
    define st' where "st' = st1\<lparr>latestFinish := AList.update k m (latestFinish st1),
                       latestStart := AList.update k (js_sub m (Finite (duration_of g k)))
                                        (latestStart st1)\<rparr>"
    note bs = backward_store [OF wf ac inv1 fresh kin all1 mv st'_def]
    have run: "backwardPass (Suc d) (cpm_env_of g) ef pc k st
               = Inr (js_sub m (Finite (duration_of g k)), st')"
    proof (cases "?qs = []")
      case True
      with l have "m = get_number ef k" "st1 = st" by simp_all
      then show ?thesis using None n kin True unfolding st'_def dur
        by (simp add: env_simps map_of_adjacencyList Let_def)
    next
      case False
      with l have "backward_loop (backwardPass d (cpm_env_of g) ef pc) (edges g) k ?qs pc st
          = Inr (m, st1)" by simp
      then show ?thesis using None n kin False unfolding st'_def dur
        by (simp add: env_simps map_of_adjacencyList Let_def)
    qed
    have "LSm st \<subseteq>\<^sub>m LSm st'" using le1 bs(3) by (rule map_le_trans)
    moreover have "dom (LSm st') \<subseteq> dom (LSm st) \<union> descendants g k"
    proof
      fix x assume "x \<in> dom (LSm st')"
      then have "x = k \<or> x \<in> dom (LSm st1)" unfolding bs(4) by simp
      then have "x = k \<or> x \<in> dom (LSm st) \<or> (\<exists>q \<in> set ?qs. x \<in> descendants g q)"
        using dom1 by blast
      moreover have "descendants g q \<subseteq> descendants g k" if "q \<in> set ?qs" for q
        using that succ_descendants_subset [of k q g] unfolding succ_edge by simp
      ultimately show "x \<in> dom (LSm st) \<union> descendants g k"
        using self_in_descendants [of k g] by blast
    qed
    ultimately have "backward_post g ef pc k st (js_sub m (Finite (duration_of g k))) st'"
      unfolding backward_post_def using bs(1,2) by simp
    with run show ?thesis by blast
  qed
qed


lemma backward_all_ok:
  assumes wf: "well_formed g" and ac: "acyclic (edge_rel g)"
    and depth: "length (nodes g) \<le> depth"
  shows "set ns \<subseteq> set (nodes g) \<Longrightarrow> backward_inv g ef pc st
         \<Longrightarrow> \<exists>st'. backward_all depth (cpm_env_of g) ef pc ns st = Inr st'
                 \<and> backward_inv g ef pc st' \<and> LSm st \<subseteq>\<^sub>m LSm st'
                 \<and> node_id ` set ns \<subseteq> dom (LSm st')"
proof (induction ns arbitrary: st)
  case Nil
  then show ?case by simp
next
  case (Cons n ns)
  have kin: "node_id n \<in> node_ids g" using Cons.prems(1) unfolding node_ids_def by simp
  have "card (descendants g (node_id n)) \<le> depth"
    using card_descendants_le [OF wf kin] depth by simp
  from backwardPass_ok [OF wf ac this kin Cons.prems(2)]
  obtain v st1 where r: "backwardPass depth (cpm_env_of g) ef pc (node_id n) st = Inr (v, st1)"
    and post: "backward_post g ef pc (node_id n) st v st1" by blast
  from post have inv1: "backward_inv g ef pc st1" and ls1: "LSm st1 (node_id n) = Some v"
    and le1: "LSm st \<subseteq>\<^sub>m LSm st1"
    unfolding backward_post_def by auto
  have "set ns \<subseteq> set (nodes g)" using Cons.prems(1) by simp
  from Cons.IH [OF this inv1]
  obtain st' where a: "backward_all depth (cpm_env_of g) ef pc ns st1 = Inr st'"
    and inv': "backward_inv g ef pc st'" and le': "LSm st1 \<subseteq>\<^sub>m LSm st'"
    and dom': "node_id ` set ns \<subseteq> dom (LSm st')" by blast
  have "LSm st' (node_id n) = Some v"
    using le' ls1 unfolding map_le_def by (metis domI)
  then have "node_id ` set (n # ns) \<subseteq> dom (LSm st')" using dom' by auto
  moreover have "backward_all depth (cpm_env_of g) ef pc (n # ns) st = Inr st'"
    using r a by simp
  moreover have "LSm st \<subseteq>\<^sub>m LSm st'" using le1 le' by (rule map_le_trans)
  ultimately show ?case using inv' by blast
qed

lemma backward_inv_empty: "backward_inv g ef pc \<lparr>latestStart = [], latestFinish = []\<rparr>"
  unfolding backward_inv_def by simp

lemma backward_final:
  assumes wf: "well_formed g" and ac: "acyclic (edge_rel g)"
    and depth: "length (nodes g) \<le> depth"
  shows "\<exists>bw. backward_all depth (cpm_env_of g) ef pc (nodes g)
                 \<lparr>latestStart = [], latestFinish = []\<rparr> = Inr bw
              \<and> backward_inv g ef pc bw \<and> dom (LSm bw) = node_ids g"
proof -
  from backward_all_ok [OF wf ac depth subset_refl backward_inv_empty]
  obtain bw where a: "backward_all depth (cpm_env_of g) ef pc (nodes g)
                 \<lparr>latestStart = [], latestFinish = []\<rparr> = Inr bw"
    and inv: "backward_inv g ef pc bw" and sub: "node_id ` set (nodes g) \<subseteq> dom (LSm bw)"
    by blast
  have "dom (LSm bw) \<subseteq> node_ids g"
    using inv unfolding backward_inv_def by blast
  moreover have "node_ids g \<subseteq> dom (LSm bw)" using sub unfolding node_ids_def by simp
  ultimately show ?thesis using a inv by blast
qed

lemma cpm_passes_ok:
  assumes wf: "well_formed g" and ac: "acyclic (edge_rel g)"
    and depth: "length (nodes g) \<le> depth"
  shows "\<exists>t. cpm_passes depth g = Inr t \<and> tables_ok g t"
proof -
  from forward_final [OF wf ac depth]
  obtain fw where f: "forward_all depth (cpm_env_of g) (nodes g)
                 \<lparr>earliestStart = [], earliestFinish = []\<rparr> = Inr fw"
    and finv: "forward_inv g fw" and fdom: "dom (EFm fw) = node_ids g" by blast
  let ?pc = "math_max (map snd (earliestFinish fw))"
  from backward_final [OF wf ac depth, of "earliestFinish fw" ?pc]
  obtain bw where b: "backward_all depth (cpm_env_of g) (earliestFinish fw) ?pc (nodes g)
                 \<lparr>latestStart = [], latestFinish = []\<rparr> = Inr bw"
    and binv: "backward_inv g (earliestFinish fw) ?pc bw"
    and bdom: "dom (LSm bw) = node_ids g" by blast
  let ?t = "\<lparr> tab_earliestStart = earliestStart fw,
               tab_earliestFinish = earliestFinish fw,
               tab_projectCompletion = ?pc,
               tab_latestStart = latestStart bw,
               tab_latestFinish = latestFinish bw \<rparr>"
  have "cpm_passes depth g = Inr ?t"
    unfolding cpm_passes_def using f b by (simp add: Let_def)
  moreover have "forward_tables ?t = fw" "backward_tables ?t = bw"
    unfolding forward_tables_def backward_tables_def by simp_all
  then have "tables_ok g ?t"
    unfolding tables_ok_def using finv fdom binv bdom by simp
  ultimately show ?thesis by blast
qed


subsection \<open>What the tables satisfy\<close>

lemma fold_max_ge_init: "m0 \<le> fold (\<lambda>p m. max m (h p)) ps (m0::int)"
proof (induction ps arbitrary: m0)
  case Nil
  show ?case by simp
next
  case (Cons p ps)
  have "m0 \<le> max m0 (h p)" by simp
  also have "\<dots> \<le> fold (\<lambda>p m. max m (h p)) ps (max m0 (h p))" by (rule Cons.IH)
  finally show ?case by simp
qed

lemma fold_max_ge_elem: "p \<in> set ps \<Longrightarrow> h p \<le> fold (\<lambda>p m. max m (h p)) ps (m0::int)"
proof (induction ps arbitrary: m0)
  case Nil
  then show ?case by simp
next
  case (Cons q ps)
  show ?case
  proof (cases "p = q")
    case True
    have "h p \<le> max m0 (h q)" using True by simp
    also have "\<dots> \<le> fold (\<lambda>p m. max m (h p)) ps (max m0 (h q))" by (rule fold_max_ge_init)
    finally show ?thesis by simp
  next
    case False
    then have "p \<in> set ps" using Cons.prems by simp
    from Cons.IH [OF this] show ?thesis by simp
  qed
qed

lemma fold_max_eq_Max:
  "fold (\<lambda>p m. max m (h p)) ps (m0::int) = Max (insert m0 (h ` set ps))"
proof (induction ps arbitrary: m0)
  case Nil
  show ?case by simp
next
  case (Cons p ps)
  have "fold (\<lambda>p m. max m (h p)) (p # ps) m0 = Max (insert (max m0 (h p)) (h ` set ps))"
    by (simp add: Cons.IH)
  also have "\<dots> = max (max m0 (h p)) (Max (insert (h p) (h ` set ps)))"
    by (cases "ps = []") (simp_all add: max.assoc max.left_commute)
  also have "\<dots> = Max (insert m0 (insert (h p) (h ` set ps)))"
    by (simp add: max.assoc)
  finally show ?case by simp
qed

lemma fold_min_ge:
  "(a::int) \<le> m0 \<Longrightarrow> (\<And>q. q \<in> set qs \<Longrightarrow> a \<le> h q) \<Longrightarrow> a \<le> fold (\<lambda>q m. min m (h q)) qs m0"
  by (induction qs arbitrary: m0) simp_all

lemma fold_js_min_Finite:
  assumes "\<And>q. q \<in> set qs \<Longrightarrow> \<exists>x. ls q = Some (Finite x)"
  shows "fold (\<lambda>q m. js_min m (js_sub (the (ls q)) (Finite (l q)))) qs (Finite m0)
         = Finite (fold (\<lambda>q m. min m (finite_part (the (ls q)) - l q)) qs m0)"
  using assms
proof (induction qs arbitrary: m0)
  case Nil
  show ?case by simp
next
  case (Cons q qs)
  from Cons.prems [of q] obtain x where x: "ls q = Some (Finite x)" by auto
  have "\<And>r. r \<in> set qs \<Longrightarrow> \<exists>x. ls r = Some (Finite x)" using Cons.prems by simp
  from Cons.IH [OF this] x show ?case by simp
qed

lemma fold_js_max_Finite:
  "fold (\<lambda>x m. js_max m (Finite x)) xs (Finite (a::int)) = Finite (fold (\<lambda>x m. max m x) xs a)"
  by (induction xs arbitrary: a) simp_all

lemma math_max_Finite:
  assumes "xs \<noteq> []"
  shows "\<exists>T. math_max xs = Finite T \<and> (\<forall>x \<in> set xs. x \<le> T)"
proof -
  from assms obtain y ys where xs: "xs = y # ys" by (cases xs) auto
  have "math_max xs = Finite (fold (\<lambda>x m. max m x) ys y)"
    unfolding math_max_def xs by (simp add: fold_js_max_Finite)
  moreover have "x \<le> fold (\<lambda>x m. max m x) ys y" if "x \<in> set xs" for x
  proof (cases "x = y")
    case True
    then show ?thesis using fold_max_ge_init [of y "\<lambda>x. x" ys] by simp
  next
    case False
    then have "x \<in> set ys" using that xs by simp
    from fold_max_ge_elem [OF this, of "\<lambda>x. x" y] show ?thesis by simp
  qed
  ultimately show ?thesis by blast
qed


lemma tables_forward:
  assumes ok: "tables_ok g t" and kin: "k \<in> node_ids g"
  shows "map_of (tab_earliestStart t) k = Some (forward_value g (map_of (tab_earliestFinish t)) k)"
    and "map_of (tab_earliestFinish t) k
           = Some (forward_value g (map_of (tab_earliestFinish t)) k + duration_of g k)"
proof -
  from ok kin obtain v where v: "map_of (tab_earliestFinish t) k = Some v"
    unfolding tables_ok_def by blast
  from ok have "forward_inv g (forward_tables t)" unfolding tables_ok_def by blast
  from this [unfolded forward_inv_def forward_tables_def, rule_format, of k v] v
  show "map_of (tab_earliestStart t) k = Some (forward_value g (map_of (tab_earliestFinish t)) k)"
    and "map_of (tab_earliestFinish t) k
           = Some (forward_value g (map_of (tab_earliestFinish t)) k + duration_of g k)"
    by simp_all
qed

lemma tables_edge:
  assumes wf: "well_formed g" and ok: "tables_ok g t" and e: "(p, k) \<in> edge_rel g"
  shows "the (map_of (tab_earliestFinish t) p) + lag_of (edges g) p k
         \<le> the (map_of (tab_earliestStart t) k)"
proof -
  have kin: "k \<in> node_ids g" using well_formed_endpoints(2) [OF wf e] .
  have "p \<in> set (predecessors_of g k)" using e unfolding pred_edge .
  from fold_max_ge_elem [OF this,
      of "\<lambda>p. the (map_of (tab_earliestFinish t) p) + lag_of (edges g) p k" 0]
  show ?thesis
    unfolding tables_forward(1) [OF ok kin] forward_value_def by simp
qed

lemma tables_completion:
  assumes ok: "tables_ok g t" and kin: "k \<in> node_ids g"
  shows "\<exists>T. tab_projectCompletion t = Finite T \<and> the (map_of (tab_earliestFinish t) k) \<le> T"
proof -
  from ok kin obtain v where v: "map_of (tab_earliestFinish t) k = Some v"
    unfolding tables_ok_def by blast
  then have "(k, v) \<in> set (tab_earliestFinish t)" by (rule map_of_SomeD)
  then have mem: "v \<in> set (map snd (tab_earliestFinish t))" by force
  then have "map snd (tab_earliestFinish t) \<noteq> []" by auto
  from math_max_Finite [OF this] obtain T where
    "math_max (map snd (tab_earliestFinish t)) = Finite T"
    "\<forall>x \<in> set (map snd (tab_earliestFinish t)). x \<le> T" by blast
  with mem v ok show ?thesis unfolding tables_ok_def by auto
qed

lemma tables_backward:
  assumes ok: "tables_ok g t" and kin: "k \<in> node_ids g"
  shows "map_of (tab_latestFinish t) k
           = Some (backward_value g (tab_earliestFinish t) (tab_projectCompletion t)
                     (map_of (tab_latestStart t)) k)"
    and "map_of (tab_latestStart t) k
           = Some (js_sub (backward_value g (tab_earliestFinish t) (tab_projectCompletion t)
                     (map_of (tab_latestStart t)) k) (Finite (duration_of g k)))"
proof -
  from ok kin obtain v where v: "map_of (tab_latestStart t) k = Some v"
    unfolding tables_ok_def by blast
  from ok have "backward_inv g (tab_earliestFinish t) (tab_projectCompletion t) (backward_tables t)"
    unfolding tables_ok_def by blast
  from this [unfolded backward_inv_def backward_tables_def, rule_format, of k v] v
  show "map_of (tab_latestFinish t) k
           = Some (backward_value g (tab_earliestFinish t) (tab_projectCompletion t)
                     (map_of (tab_latestStart t)) k)"
    and "map_of (tab_latestStart t) k
           = Some (js_sub (backward_value g (tab_earliestFinish t) (tab_projectCompletion t)
                     (map_of (tab_latestStart t)) k) (Finite (duration_of g k)))"
    by simp_all
qed

lemma tables_latest:
  assumes wf: "well_formed g" and ac: "acyclic (edge_rel g)" and ok: "tables_ok g t"
  shows "k \<in> node_ids g \<Longrightarrow>
         \<exists>lf. map_of (tab_latestFinish t) k = Some (Finite lf)
            \<and> map_of (tab_latestStart t) k = Some (Finite (lf - duration_of g k))
            \<and> the (map_of (tab_earliestFinish t) k) \<le> lf"
proof (induction k rule: wf_induct_rule [OF finite_acyclic_wf_converse [OF finite_edge_rel ac]])
  case (1 k)
  note kin = "1.prems"
  let ?EF = "map_of (tab_earliestFinish t)" and ?LS = "map_of (tab_latestStart t)"
  let ?bv = "backward_value g (tab_earliestFinish t) (tab_projectCompletion t) ?LS k"
  from tables_completion [OF ok kin] obtain T where
    T: "tab_projectCompletion t = Finite T" "the (?EF k) \<le> T" by blast
  have "\<exists>lf. ?bv = Finite lf \<and> the (?EF k) \<le> lf"
  proof (cases "successors_of g k = []")
    case True
    have "?bv = Finite (the (?EF k))"
      unfolding backward_value_def get_number_def using True tables_forward(2) [OF ok kin]
      by simp
    then show ?thesis by simp
  next
    case False
    have succ: "\<exists>lf. ?LS q = Some (Finite (lf - duration_of g q)) \<and> the (?EF q) \<le> lf"
      if "q \<in> set (successors_of g k)" for q
    proof -
      have e: "(k, q) \<in> edge_rel g" using that unfolding succ_edge .
      then have "(q, k) \<in> (edge_rel g)\<inverse>" by simp
      moreover have "q \<in> node_ids g" using well_formed_endpoints(2) [OF wf e] .
      ultimately show ?thesis using "1.IH" by blast
    qed
    then have fin: "\<And>q. q \<in> set (successors_of g k) \<Longrightarrow> \<exists>x. ?LS q = Some (Finite x)"
      by blast
    have bv: "?bv = Finite (fold (\<lambda>q m. min m (finite_part (the (?LS q)) - lag_of (edges g) k q))
                              (successors_of g k) T)"
      unfolding backward_value_def T(1) using False fold_js_min_Finite [OF fin] by simp
    have "the (?EF k) \<le> finite_part (the (?LS q)) - lag_of (edges g) k q"
      if q: "q \<in> set (successors_of g k)" for q
    proof -
      from succ [OF q] obtain lf where
        lf: "?LS q = Some (Finite (lf - duration_of g q))" "the (?EF q) \<le> lf" by blast
      have e: "(k, q) \<in> edge_rel g" using q unfolding succ_edge .
      have qin: "q \<in> node_ids g" using well_formed_endpoints(2) [OF wf e] .
      have "the (?EF k) + lag_of (edges g) k q \<le> the (map_of (tab_earliestStart t) q)"
        using tables_edge [OF wf ok e] .
      moreover have "the (?EF q) = the (map_of (tab_earliestStart t) q) + duration_of g q"
        using tables_forward [OF ok qin] by simp
      ultimately show ?thesis using lf by simp
    qed
    from fold_min_ge [of "the (?EF k)" T "successors_of g k"
        "\<lambda>q. finite_part (the (?LS q)) - lag_of (edges g) k q", OF T(2) this]
    show ?thesis unfolding bv by simp
  qed
  then obtain lf where lf: "?bv = Finite lf" "the (?EF k) \<le> lf" by blast
  show ?case
    using tables_backward [OF ok kin] lf by auto
qed


subsection \<open>Soundness of the critical path method\<close>

lemma duration_of_node:
  assumes "well_formed g" "n \<in> set (nodes g)"
  shows "duration_of g (node_id n) = duration_days n"
proof -
  have "distinct (map node_id (nodes g))" using assms(1) unfolding well_formed_def by simp
  from map_of_nodeMap [OF this assms(2)] show ?thesis unfolding duration_of_def by simp
qed

lemma find_distinct_key:
  "distinct (map f xs) \<Longrightarrow> x \<in> set xs \<Longrightarrow> find (\<lambda>y. f y = f x) xs = Some x"
proof (induction xs)
  case Nil
  then show ?case by simp
next
  case (Cons a xs)
  show ?case
  proof (cases "a = x")
    case True
    then show ?thesis by simp
  next
    case False
    then have "x \<in> set xs" using Cons.prems(2) by simp
    moreover have "f a \<noteq> f x" using Cons.prems(1) \<open>x \<in> set xs\<close> by auto
    ultimately show ?thesis using Cons by simp
  qed
qed

lemma lag_of_edge:
  assumes "well_formed g" "e \<in> set (edges g)"
  shows "lag_of (edges g) (e_from e) (e_to e) = e_lag_days e"
proof -
  have d: "distinct (map (\<lambda>e. (e_from e, e_to e)) (edges g))"
    using assms(1) unfolding well_formed_def by simp
  have "(\<lambda>y. e_from y = e_from e \<and> e_to y = e_to e)
        = (\<lambda>y. (e_from y, e_to y) = (e_from e, e_to e))" by auto
  then have "find (\<lambda>y. e_from y = e_from e \<and> e_to y = e_to e) (edges g) = Some e"
    using find_distinct_key [OF d assms(2)] by simp
  then show ?thesis unfolding lag_of_def by simp
qed

lemma mark_edges_ok:
  "(\<And>e. e \<in> set es \<Longrightarrow> map_of nm (e_from e) \<noteq> None \<and> map_of nm (e_to e) \<noteq> None)
   \<Longrightarrow> \<exists>es'. mark_edges nm es = Inr es'"
proof (induction es)
  case Nil
  show ?case by simp
next
  case (Cons e es)
  from Cons.prems [of e] obtain a b where
    ab: "map_of nm (e_from e) = Some a" "map_of nm (e_to e) = Some b" by auto
  have "\<And>x. x \<in> set es \<Longrightarrow> map_of nm (e_from x) \<noteq> None \<and> map_of nm (e_to x) \<noteq> None"
    using Cons.prems by simp
  from Cons.IH [OF this] obtain es' where "mark_edges nm es = Inr es'" by blast
  then show ?case using ab by simp
qed

lemma nodeMap_annotated:
  assumes "k \<in> node_ids g"
  shows "map_of (nodeMap (map (annotate_node now t) (nodes g))) k \<noteq> None"
proof -
  from assms obtain n where n: "n \<in> set (nodes g)" "node_id n = k"
    unfolding node_ids_def by auto
  have "node_id (annotate_node now t n) = k"
    using n(2) unfolding annotate_node_def by (simp add: Let_def)
  moreover have "annotate_node now t n \<in> set (map (annotate_node now t) (nodes g))"
    using n(1) by simp
  ultimately have "filter (\<lambda>x. node_id x = k) (map (annotate_node now t) (nodes g)) \<noteq> []"
    unfolding filter_empty_conv by blast
  then show ?thesis unfolding nodeMap_def map_of_fold_update_last by simp
qed

lemma calculateCriticalPath_ok:
  assumes wf: "well_formed g" and p: "cpm_passes depth g = Inr t"
  shows "\<exists>a g'. calculateCriticalPath depth now g = Inr (a, g')
           \<and> nodes g' = map (annotate_node now t) (nodes g)
           \<and> total_duration_days a = tab_projectCompletion t"
proof -
  have "map_of (nodeMap (map (annotate_node now t) (nodes g))) (e_from e) \<noteq> None
      \<and> map_of (nodeMap (map (annotate_node now t) (nodes g))) (e_to e) \<noteq> None"
    if "e \<in> set (edges g)" for e
  proof -
    have "(e_from e, e_to e) \<in> edge_rel g" using that unfolding edge_rel_iff by blast
    from well_formed_endpoints [OF wf this] show ?thesis
      using nodeMap_annotated by blast
  qed
  from mark_edges_ok [of "edges g" "nodeMap (map (annotate_node now t) (nodes g))", OF this]
  obtain es' where "mark_edges (nodeMap (map (annotate_node now t) (nodes g))) (edges g) = Inr es'"
    by blast
  then show ?thesis unfolding calculateCriticalPath_def using p by (simp add: Let_def)
qed



lemma tables_node:
  assumes wf: "well_formed g" and ac: "acyclic (edge_rel g)" and ok: "tables_ok g t"
    and n: "n \<in> set (nodes g)"
  shows "\<exists>ES EF LS LF.
           map_of (tab_earliestStart t) (node_id n) = Some ES
         \<and> map_of (tab_earliestFinish t) (node_id n) = Some EF
         \<and> map_of (tab_latestStart t) (node_id n) = Some (Finite LS)
         \<and> map_of (tab_latestFinish t) (node_id n) = Some (Finite LF)
         \<and> EF = ES + duration_days n \<and> LF = LS + duration_days n
         \<and> ES \<le> LS \<and> EF \<le> LF
         \<and> slack_days (annotate_node now t n) = Some (Finite (LS - ES)) \<and> 0 \<le> LS - ES"
proof -
  have kin: "node_id n \<in> node_ids g" using n unfolding node_ids_def by simp
  note dur = duration_of_node [OF wf n]
  let ?ES = "forward_value g (map_of (tab_earliestFinish t)) (node_id n)"
  have es: "map_of (tab_earliestStart t) (node_id n) = Some ?ES"
    and ef: "map_of (tab_earliestFinish t) (node_id n) = Some (?ES + duration_days n)"
    using tables_forward [OF ok kin] unfolding dur by simp_all
  from tables_latest [OF wf ac ok kin] obtain lf where
    lf: "map_of (tab_latestFinish t) (node_id n) = Some (Finite lf)"
    and ls: "map_of (tab_latestStart t) (node_id n) = Some (Finite (lf - duration_days n))"
    and le: "?ES + duration_days n \<le> lf"
    unfolding dur ef by auto
  have "slack_days (annotate_node now t n) = Some (Finite (lf - duration_days n - ?ES))"
    unfolding annotate_node_def get_number_def get_js_number_def using es ls
    by (simp add: Let_def)
  then show ?thesis using es ef lf ls le by simp
qed

text \<open>
  C2: for every acyclic graph (distinct node ids, every edge between two nodes, at most
  one edge per pair of nodes) whose nodes have non-negative durations, with a call
  stack at least as deep as the number of nodes, \<open>calculateCriticalPath\<close> returns, and
  for every node the values of its tables satisfy \<open>EF = ES + duration\<close>,
  \<open>LF = LS + duration\<close>, \<open>ES \<le> LS\<close>, \<open>EF \<le> LF\<close>, the node's \<open>slack_days\<close> is
  \<open>LS - ES \<ge> 0\<close>, and for every edge \<open>(u, v)\<close>, \<open>EF(u) + lag(u, v) \<le> ES(v)\<close>.
\<close>

theorem cpm_soundness:
  assumes wf: "well_formed g" and ac: "acyclic (edge_rel g)"
    and nonneg: "\<forall>n \<in> set (nodes g). 0 \<le> duration_days n"
    and depth: "length (nodes g) \<le> depth"
  shows "\<exists>a g' t. calculateCriticalPath depth now g = Inr (a, g')
     \<and> cpm_passes depth g = Inr t
     \<and> nodes g' = map (annotate_node now t) (nodes g)
     \<and> (\<forall>n \<in> set (nodes g). \<exists>ES EF LS LF.
           map_of (tab_earliestStart t) (node_id n) = Some ES
         \<and> map_of (tab_earliestFinish t) (node_id n) = Some EF
         \<and> map_of (tab_latestStart t) (node_id n) = Some (Finite LS)
         \<and> map_of (tab_latestFinish t) (node_id n) = Some (Finite LF)
         \<and> EF = ES + duration_days n \<and> LF = LS + duration_days n
         \<and> ES \<le> LS \<and> EF \<le> LF
         \<and> slack_days (annotate_node now t n) = Some (Finite (LS - ES)) \<and> 0 \<le> LS - ES)
     \<and> (\<forall>e \<in> set (edges g). \<exists>EFu ESv.
           map_of (tab_earliestFinish t) (e_from e) = Some EFu
         \<and> map_of (tab_earliestStart t) (e_to e) = Some ESv
         \<and> EFu + e_lag_days e \<le> ESv)"
proof -
  from cpm_passes_ok [OF wf ac depth] obtain t where
    p: "cpm_passes depth g = Inr t" and ok: "tables_ok g t" by blast
  from calculateCriticalPath_ok [OF wf p, of now] obtain a g' where
    c: "calculateCriticalPath depth now g = Inr (a, g')"
    and ns: "nodes g' = map (annotate_node now t) (nodes g)" by blast
  have nodes_ok: "\<forall>n \<in> set (nodes g). \<exists>ES EF LS LF.
           map_of (tab_earliestStart t) (node_id n) = Some ES
         \<and> map_of (tab_earliestFinish t) (node_id n) = Some EF
         \<and> map_of (tab_latestStart t) (node_id n) = Some (Finite LS)
         \<and> map_of (tab_latestFinish t) (node_id n) = Some (Finite LF)
         \<and> EF = ES + duration_days n \<and> LF = LS + duration_days n
         \<and> ES \<le> LS \<and> EF \<le> LF
         \<and> slack_days (annotate_node now t n) = Some (Finite (LS - ES)) \<and> 0 \<le> LS - ES"
    using tables_node [OF wf ac ok] by blast
  have edges_ok: "\<forall>e \<in> set (edges g). \<exists>EFu ESv.
           map_of (tab_earliestFinish t) (e_from e) = Some EFu
         \<and> map_of (tab_earliestStart t) (e_to e) = Some ESv
         \<and> EFu + e_lag_days e \<le> ESv"
  proof
    fix e assume e: "e \<in> set (edges g)"
    have r: "(e_from e, e_to e) \<in> edge_rel g" using e unfolding edge_rel_iff by blast
    note ends = well_formed_endpoints [OF wf r]
    from tables_forward(2) [OF ok ends(1)] obtain EFu where
      u: "map_of (tab_earliestFinish t) (e_from e) = Some EFu" by blast
    from tables_forward(1) [OF ok ends(2)] obtain ESv where
      v: "map_of (tab_earliestStart t) (e_to e) = Some ESv" by blast
    have "EFu + e_lag_days e \<le> ESv"
      using tables_edge [OF wf ok r] u v unfolding lag_of_edge [OF wf e] by simp
    with u v show "\<exists>EFu ESv.
           map_of (tab_earliestFinish t) (e_from e) = Some EFu
         \<and> map_of (tab_earliestStart t) (e_to e) = Some ESv
         \<and> EFu + e_lag_days e \<le> ESv" by blast
  qed
  from c p ns nodes_ok edges_ok show ?thesis by blast
qed

lemma diamond_well_formed: "well_formed diamond"
  by (simp add: well_formed_def node_ids_def example_defs)

lemma diamond_acyclic: "acyclic (edge_rel diamond)"
proof (rule acyclicI_order)
  fix a b assume "(a, b) \<in> edge_rel diamond"
  then show "(if b = ''A'' then 2 else if b = ''D'' then 0 else (1::nat))
           < (if a = ''A'' then 2 else if a = ''D'' then 0 else 1)"
    by (auto simp: edge_rel_def example_defs)
qed

theorem cpm_soundness_witness:
  "\<exists>a g' t. calculateCriticalPath 4 0 diamond = Inr (a, g')
     \<and> cpm_passes 4 diamond = Inr t
     \<and> nodes g' = map (annotate_node 0 t) (nodes diamond)
     \<and> (\<forall>n \<in> set (nodes diamond). \<exists>ES EF LS LF.
           map_of (tab_earliestStart t) (node_id n) = Some ES
         \<and> map_of (tab_earliestFinish t) (node_id n) = Some EF
         \<and> map_of (tab_latestStart t) (node_id n) = Some (Finite LS)
         \<and> map_of (tab_latestFinish t) (node_id n) = Some (Finite LF)
         \<and> EF = ES + duration_days n \<and> LF = LS + duration_days n
         \<and> ES \<le> LS \<and> EF \<le> LF
         \<and> slack_days (annotate_node 0 t n) = Some (Finite (LS - ES)) \<and> 0 \<le> LS - ES)
     \<and> (\<forall>e \<in> set (edges diamond). \<exists>EFu ESv.
           map_of (tab_earliestFinish t) (e_from e) = Some EFu
         \<and> map_of (tab_earliestStart t) (e_to e) = Some ESv
         \<and> EFu + e_lag_days e \<le> ESv)"
proof -
  have nonneg: "\<forall>n \<in> set (nodes diamond). 0 \<le> duration_days n"
    by (simp add: example_defs)
  have depth: "length (nodes diamond) \<le> 4"
    by (simp add: example_defs)
  show ?thesis
    by (rule cpm_soundness [OF diamond_well_formed diamond_acyclic nonneg depth])
qed


subsection \<open>Clipping at zero in the forward pass\<close>

lemma forward_value_Max:
  assumes wf: "well_formed g"
  shows "forward_value g ef k
         = Max (insert 0 ((\<lambda>e. the (ef (e_from e)) + e_lag_days e)
                            ` {e \<in> set (edges g). e_to e = k}))"
proof -
  have "(\<lambda>p. the (ef p) + lag_of (edges g) p k) ` set (predecessors_of g k)
        = (\<lambda>e. the (ef (e_from e)) + lag_of (edges g) (e_from e) k)
            ` {e \<in> set (edges g). e_to e = k}"
    unfolding predecessors_of_def by (simp add: image_image)
  also have "\<dots> = (\<lambda>e. the (ef (e_from e)) + e_lag_days e) ` {e \<in> set (edges g). e_to e = k}"
  proof (rule image_cong [OF refl])
    fix e assume "e \<in> {e \<in> set (edges g). e_to e = k}"
    then have "e \<in> set (edges g)" "e_to e = k" by simp_all
    with lag_of_edge [OF wf, of e]
    show "the (ef (e_from e)) + lag_of (edges g) (e_from e) k = the (ef (e_from e)) + e_lag_days e"
      by simp
  qed
  finally show ?thesis
    unfolding forward_value_def fold_max_eq_Max by simp
qed

text \<open>
  C8 (as amended): the forward pass clips the earliest start at 0 at every node, not
  only at sources: for every node, \<open>ES\<close> is the maximum of 0 and of
  \<open>EF(p) + lag(p -> n)\<close> over the incoming edges, so a node with no predecessor has
  \<open>ES = 0\<close> and no node has a negative \<open>ES\<close>.
\<close>

theorem forward_pass_clips_at_every_node:
  assumes wf: "well_formed g" and ac: "acyclic (edge_rel g)"
    and depth: "length (nodes g) \<le> depth"
  shows "\<exists>t. cpm_passes depth g = Inr t
     \<and> (\<forall>n \<in> set (nodes g).
          map_of (tab_earliestStart t) (node_id n)
            = Some (Max (insert 0 ((\<lambda>e. the (map_of (tab_earliestFinish t) (e_from e)) + e_lag_days e)
                                    ` {e \<in> set (edges g). e_to e = node_id n})))
        \<and> ({e \<in> set (edges g). e_to e = node_id n} = {}
             \<longrightarrow> map_of (tab_earliestStart t) (node_id n) = Some 0)
        \<and> (\<exists>ES. map_of (tab_earliestStart t) (node_id n) = Some ES \<and> 0 \<le> ES))"
proof -
  from cpm_passes_ok [OF wf ac depth] obtain t where
    p: "cpm_passes depth g = Inr t" and ok: "tables_ok g t" by blast
  have "map_of (tab_earliestStart t) (node_id n)
            = Some (Max (insert 0 ((\<lambda>e. the (map_of (tab_earliestFinish t) (e_from e)) + e_lag_days e)
                                    ` {e \<in> set (edges g). e_to e = node_id n})))
        \<and> ({e \<in> set (edges g). e_to e = node_id n} = {}
             \<longrightarrow> map_of (tab_earliestStart t) (node_id n) = Some 0)
        \<and> (\<exists>ES. map_of (tab_earliestStart t) (node_id n) = Some ES \<and> 0 \<le> ES)"
    if n: "n \<in> set (nodes g)" for n
  proof -
    have kin: "node_id n \<in> node_ids g" using n unfolding node_ids_def by simp
    let ?S = "(\<lambda>e. the (map_of (tab_earliestFinish t) (e_from e)) + e_lag_days e)
                ` {e \<in> set (edges g). e_to e = node_id n}"
    have es: "map_of (tab_earliestStart t) (node_id n) = Some (Max (insert 0 ?S))"
      using tables_forward(1) [OF ok kin] unfolding forward_value_Max [OF wf] .
    have "finite (insert 0 ?S)" by simp
    then have "0 \<le> Max (insert 0 ?S)" by (intro Max_ge) simp_all
    moreover have "{e \<in> set (edges g). e_to e = node_id n} = {} \<longrightarrow> Max (insert 0 ?S) = 0"
    proof
      assume "{e \<in> set (edges g). e_to e = node_id n} = {}"
      then have "?S = {}" by (simp only: image_empty)
      then show "Max (insert 0 ?S) = 0" by (simp only: Max_singleton)
    qed
    ultimately show ?thesis using es by simp
  qed
  with p show ?thesis by blast
qed

lemma lag_graph_well_formed: "well_formed lag_graph"
  by (simp add: well_formed_def node_ids_def lag_graph_def example_defs)

lemma acyclic_empty: "acyclic {}"
  by (simp add: acyclic_def)

lemma lag_graph_acyclic: "acyclic (edge_rel lag_graph)"
  by (simp add: edge_rel_def lag_graph_def example_defs acyclic_empty)

theorem forward_pass_clips_at_every_node_witness:
  "\<exists>t. cpm_passes 2 lag_graph = Inr t
     \<and> (\<forall>n \<in> set (nodes lag_graph).
          map_of (tab_earliestStart t) (node_id n)
            = Some (Max (insert 0 ((\<lambda>e. the (map_of (tab_earliestFinish t) (e_from e)) + e_lag_days e)
                                    ` {e \<in> set (edges lag_graph). e_to e = node_id n})))
        \<and> ({e \<in> set (edges lag_graph). e_to e = node_id n} = {}
             \<longrightarrow> map_of (tab_earliestStart t) (node_id n) = Some 0)
        \<and> (\<exists>ES. map_of (tab_earliestStart t) (node_id n) = Some ES \<and> 0 \<le> ES))"
proof -
  have depth: "length (nodes lag_graph) \<le> 2"
    by (simp add: lag_graph_def example_defs)
  show ?thesis
    by (rule forward_pass_clips_at_every_node [OF lag_graph_well_formed lag_graph_acyclic depth])
qed

text \<open>
  C8 (as stated) fails: in the graph A(1) -> B(1) with lag -5, node B has the
  predecessor A with \<open>EF(A) + lag = 1 - 5 = -4\<close>, and the forward pass gives
  \<open>ES(B) = 0\<close>.
\<close>

theorem negative_lag_is_clipped:
  "cpm_passes 2 lag_graph
     = Inr \<lparr> tab_earliestStart = [(''A'', 0), (''B'', 0)],
             tab_earliestFinish = [(''A'', 1), (''B'', 1)],
             tab_projectCompletion = Finite 1,
             tab_latestStart = [(''B'', Finite 0), (''A'', Finite 0)],
             tab_latestFinish = [(''B'', Finite 1), (''A'', Finite 1)] \<rparr>
   \<and> predecessors_of lag_graph ''B'' = [''A'']
   \<and> lag_of (edges lag_graph) ''A'' ''B'' = - 5
   \<and> (0::int) \<noteq> 1 + (- 5)"
  by (simp add: cpm_passes_def math_max_def nodeMap_def example_defs lag_graph_def
     cpm_env_of_def adjacencyList_def reverseAdjacencyList_def emptyAdjacency_def lag_of_def
     get_number_def predecessors_of_def Let_def eval_nat_numeral)


section \<open>Acyclicity of the stored edges\<close>

lemma path_nodes_distinct:
  assumes ac: "acyclic R" and steps: "\<forall>i<n. (f i, f (Suc i)) \<in> R"
  shows "i < j \<Longrightarrow> j \<le> n \<Longrightarrow> (f i, f j) \<in> R\<^sup>+"
proof (induction j)
  case 0
  then show ?case by simp
next
  case (Suc j)
  have e: "(f j, f (Suc j)) \<in> R" using steps Suc.prems(2) by simp
  show ?case
  proof (cases "i = j")
    case True
    then show ?thesis using e by auto
  next
    case False
    then have "(f i, f j) \<in> R\<^sup>+" using Suc by simp
    then show ?thesis using e by (rule trancl_into_trancl)
  qed
qed

lemma acyclic_path_bound:
  assumes ac: "acyclic R" and field: "Field R \<subseteq> W" and fin: "finite W"
    and n: "(a, b) \<in> R ^^ n" and pos: "0 < n"
  shows "n < card W"
proof -
  from n obtain f where f: "f 0 = a" "f n = b" "\<forall>i<n. (f i, f (Suc i)) \<in> R"
    unfolding relpow_fun_conv by blast
  have inj: "inj_on f {0..n}"
  proof (rule inj_onI)
    fix i j assume ij: "i \<in> {0..n}" "j \<in> {0..n}" "f i = f j"
    show "i = j"
    proof (rule ccontr)
      assume "i \<noteq> j"
      then consider "i < j" | "j < i" by linarith
      then have "\<exists>x. (x, x) \<in> R\<^sup>+"
      proof cases
        case 1
        from path_nodes_distinct [OF ac f(3) 1] ij show ?thesis by auto
      next
        case 2
        from path_nodes_distinct [OF ac f(3) 2] ij show ?thesis by auto
      qed
      then show False using ac unfolding acyclic_def by blast
    qed
  qed
  have "f i \<in> Field R" if "i \<le> n" for i
  proof (cases "i < n")
    case True
    then have "(f i, f (Suc i)) \<in> R" using f(3) by simp
    then show ?thesis unfolding Field_def by auto
  next
    case False
    then have "i = n" using that by simp
    then obtain k where k: "i = Suc k" "k < n" using pos by (cases i) auto
    then have "(f k, f i) \<in> R" using f(3) by simp
    then show ?thesis unfolding Field_def by auto
  qed
  then have "f ` {0..n} \<subseteq> W" using field by auto
  then have "card (f ` {0..n}) \<le> card W" using fin by (rule card_mono [rotated])
  then show ?thesis using card_image [OF inj] by simp
qed


lemma tenant_edges_iff:
  "(a, b) \<in> tenant_edges t w
   \<longleftrightarrow> (\<exists>d \<in> set (dependency_edges w). tenant_id d = t \<and> from_id d = a \<and> to_id d = b)"
  unfolding tenant_edges_def by (auto simp: image_iff)

lemma path_level_reach:
  "(start, x) \<in> tenant_edges t w ^^ Suc j \<Longrightarrow> j < 20
   \<Longrightarrow> \<exists>f. (f, x, Suc j) \<in> set ((path_step (dependency_edges w) t ^^ j)
                                   (path_base (dependency_edges w) t start))"
proof (induction j arbitrary: x)
  case 0
  then have "(start, x) \<in> tenant_edges t w" by simp
  then obtain d where d: "d \<in> set (dependency_edges w)" "tenant_id d = t"
    "from_id d = start" "to_id d = x" unfolding tenant_edges_iff by blast
  from path_base_mem [OF d(1-3)] d(4) show ?case by auto
next
  case (Suc j)
  from Suc.prems(1) obtain y where
    y: "(start, y) \<in> tenant_edges t w ^^ Suc j" "(y, x) \<in> tenant_edges t w"
    by (auto elim: relpow_Suc_E)
  have "j < 20" using Suc.prems(2) by simp
  from Suc.IH [OF y(1) this] obtain f where
    f: "(f, y, Suc j) \<in> set ((path_step (dependency_edges w) t ^^ j)
                               (path_base (dependency_edges w) t start))" by blast
  from y(2) obtain d where d: "d \<in> set (dependency_edges w)" "tenant_id d = t"
    "from_id d = y" "to_id d = x" unfolding tenant_edges_iff by blast
  from path_step_mem [OF f Suc.prems(2) d(1-3)] d(4)
  show ?case by auto
qed

lemma path_rounds_cover:
  "j < k \<Longrightarrow> set ((path_step es t ^^ j) working) \<subseteq> set (path_rounds k es t working)"
proof (induction k arbitrary: j working)
  case 0
  then show ?case by simp
next
  case (Suc k)
  show ?case
  proof (cases j)
    case 0
    then show ?thesis by simp
  next
    case (Suc i)
    then have "i < k" using Suc.prems by simp
    from Suc.IH [OF this, of "path_step es t working"]
    show ?thesis unfolding \<open>j = Suc i\<close> by (auto simp: funpow_swap1)
  qed
qed

lemma would_cycle_complete:
  assumes "(start, x) \<in> tenant_edges t w ^^ n" "0 < n" "n \<le> 20"
  shows "would_cycle (dependency_edges w) t start x"
proof -
  from assms(2) obtain j where j: "n = Suc j" by (cases n) auto
  then have j20: "j < 20" using assms(3) by simp
  from path_level_reach [OF assms(1) [unfolded j] j20] obtain f where
    "(f, x, Suc j) \<in> set ((path_step (dependency_edges w) t ^^ j)
                               (path_base (dependency_edges w) t start))" by blast
  with path_rounds_cover [OF j20, of "dependency_edges w" t "path_base (dependency_edges w) t start"]
  have m: "(f, x, Suc j) \<in> set (dependency_path (dependency_edges w) t start)"
    unfolding dependency_path_def by blast
  have "(f, x, Suc j) \<in> set (filter (\<lambda>r. fst (snd r) = x)
                               (dependency_path (dependency_edges w) t start))"
    using m by simp
  then have "filter (\<lambda>r. fst (snd r) = x) (dependency_path (dependency_edges w) t start) \<noteq> []"
    by (metis empty_iff empty_set)
  then show ?thesis unfolding would_cycle_def .
qed

lemma probe_negative_no_path:
  assumes ac: "acyclic (tenant_edges t w)"
    and field: "Field (tenant_edges t w) \<subseteq> tenant_items t w"
    and card: "card (tenant_items t w) \<le> 21"
    and neg: "\<not> would_cycle (dependency_edges w) t a b"
    and ne: "a \<noteq> b"
  shows "(a, b) \<notin> (tenant_edges t w)\<^sup>*"
proof
  assume "(a, b) \<in> (tenant_edges t w)\<^sup>*"
  with ne have "(a, b) \<in> (tenant_edges t w)\<^sup>+" by (auto simp: rtrancl_eq_or_trancl)
  then obtain n where n: "0 < n" "(a, b) \<in> tenant_edges t w ^^ n"
    unfolding trancl_power by blast
  have "finite (tenant_items t w)" unfolding tenant_items_def by simp
  from acyclic_path_bound [OF ac field this n(2) n(1)] card have "n \<le> 20" by simp
  from would_cycle_complete [OF n(2) n(1) this] neg show False by simp
qed


lemma transaction_Inr: "transaction cb w = (Inr x, w') \<longleftrightarrow> cb w = (Inr x, w')"
  unfolding transaction_def by (cases "cb w") (auto split: sum.splits)

lemma createDependency_callback_success:
  assumes "createDependency_callback user data i n w = (Inr x, w')"
  shows "validateWorkItemsExist user [req_from_id data, req_to_id data] w = Inr ()"
    and "\<not> would_cycle (dependency_edges w) (user_tenant_id user) (req_to_id data) (req_from_id data)"
    and "work_items w' = work_items w"
    and "dependency_edges w' = dependency_edges w @ [x]"
    and "tenant_id x = user_tenant_id user"
    and "from_id x = req_from_id data" and "to_id x = req_to_id data"
proof -
  show v: "validateWorkItemsExist user [req_from_id data, req_to_id data] w = Inr ()"
    using assms unfolding createDependency_callback_def
    by (cases "validateWorkItemsExist user [req_from_id data, req_to_id data] w") simp_all
  show c: "\<not> would_cycle (dependency_edges w) (user_tenant_id user) (req_to_id data) (req_from_id data)"
  proof
    assume "would_cycle (dependency_edges w) (user_tenant_id user) (req_to_id data) (req_from_id data)"
    then have "fst (createDependency_callback user data i n w)
               = Inl (Error (''CYCLE_DETECTED: Creating this dependency would create a cycle: ''
                        @ req_to_id data @ '' -> '' @ req_from_id data))"
      unfolding createDependency_callback_def wouldCreateCycle_def using v
      by (simp add: Let_def)
    with assms show False by simp
  qed
  let ?dup = "length (filter (\<lambda>d. tenant_id d = user_tenant_id user
                                   \<and> from_id d = req_from_id data
                                   \<and> to_id d = req_to_id data) (dependency_edges w)) > 0"
  have nd: "\<not> ?dup"
  proof
    assume ?dup
    then have "fst (createDependency_callback user data i n w)
               = Inl (Error ''DUPLICATE_DEPENDENCY: Dependency already exists between these work items'')"
      unfolding createDependency_callback_def wouldCreateCycle_def using v c
      by (simp add: Let_def)
    with assms show False by simp
  qed
  have r: "createDependency_callback user data i n w
           = (Inr \<lparr> dep_id = i, tenant_id = user_tenant_id user, from_id = req_from_id data,
                    to_id = req_to_id data, dependency_type = req_dependency_type data,
                    lag_days = (case req_lag_days data of None \<Rightarrow> 0 | Some l \<Rightarrow> l),
                    created_at = n, created_by = user_id user, updated_at = n,
                    metadata = (case req_metadata data of None \<Rightarrow> ''{}'' | Some m \<Rightarrow> m) \<rparr>,
              snd (createDependency_callback user data i n w))"
    unfolding createDependency_callback_def wouldCreateCycle_def using v c nd
    by (simp add: Let_def)
  with assms have x: "x = \<lparr> dep_id = i, tenant_id = user_tenant_id user, from_id = req_from_id data,
                    to_id = req_to_id data, dependency_type = req_dependency_type data,
                    lag_days = (case req_lag_days data of None \<Rightarrow> 0 | Some l \<Rightarrow> l),
                    created_at = n, created_by = user_id user, updated_at = n,
                    metadata = (case req_metadata data of None \<Rightarrow> ''{}'' | Some m \<Rightarrow> m) \<rparr>"
    by simp
  show "tenant_id x = user_tenant_id user" "from_id x = req_from_id data"
    "to_id x = req_to_id data" unfolding x by simp_all
  have "w' = snd (createDependency_callback user data i n w)" using assms by simp
  then have w': "w' = publish ''dependencies'' ''dependency.created''
                           (DependencyEvent ''created'' i (user_tenant_id user)
                              (user_id user) (Snapshot x) n)
                      (schedulePathRecalculation (user_tenant_id user) n
                         (w\<lparr>dependency_edges := dependency_edges w @ [x]\<rparr>))"
    unfolding createDependency_callback_def wouldCreateCycle_def x using v c nd
    by (simp add: Let_def)
  show "work_items w' = work_items w" "dependency_edges w' = dependency_edges w @ [x]"
    unfolding w' publish_def schedulePathRecalculation_def by simp_all
qed

lemma deleteDependency_callback_success:
  assumes "deleteDependency_callback user i n w = (Inr x, w')"
  shows "work_items w' = work_items w"
    and "set (dependency_edges w') \<subseteq> set (dependency_edges w)"
proof -
  from assms obtain existing where e: "getDependencyById user i w = Some existing"
    unfolding deleteDependency_callback_def
    by (cases "getDependencyById user i w") simp_all
  have "w' = snd (deleteDependency_callback user i n w)" using assms by simp
  then have w': "w' = publish ''dependencies'' ''dependency.deleted''
                     (DependencyEvent ''deleted'' i (user_tenant_id user)
                        (user_id user) (Snapshot existing) n)
                   (schedulePathRecalculation (user_tenant_id user) n
                      (w\<lparr>dependency_edges :=
                      filter (\<lambda>d. \<not> (dep_id d = i \<and> tenant_id d = user_tenant_id user))
                        (dependency_edges w)\<rparr>))"
    unfolding deleteDependency_callback_def using e by (simp add: Let_def)
  show "work_items w' = work_items w" "set (dependency_edges w') \<subseteq> set (dependency_edges w)"
    unfolding w' publish_def schedulePathRecalculation_def by auto
qed


lemma validateWorkItemsExist_items:
  assumes "validateWorkItemsExist user ids w = Inr ()"
  shows "set ids \<subseteq> tenant_items (user_tenant_id user) w"
proof
  fix i assume i: "i \<in> set ids"
  let ?found = "map wi_id (filter (\<lambda>r. wi_tenant_id r = user_tenant_id user
                                          \<and> wi_id r \<in> set ids) (work_items w))"
  have "filter (\<lambda>i. i \<notin> set ?found) ids = []"
    using assms unfolding validateWorkItemsExist_def
    by (simp add: Let_def split: if_splits)
  then have "i \<in> set ?found" using i unfolding filter_empty_conv by blast
  then show "i \<in> tenant_items (user_tenant_id user) w"
    unfolding tenant_items_def by auto
qed

lemma tenant_edges_append:
  "dependency_edges w' = dependency_edges w @ [x]
   \<Longrightarrow> tenant_edges t w' = (if tenant_id x = t then insert (from_id x, to_id x) (tenant_edges t w)
                              else tenant_edges t w)"
  unfolding tenant_edges_def by auto

lemma tenant_edges_mono:
  "set (dependency_edges w') \<subseteq> set (dependency_edges w) \<Longrightarrow> tenant_edges t w' \<subseteq> tenant_edges t w"
  unfolding tenant_edges_def by auto

lemma tenant_items_same: "work_items w' = work_items w \<Longrightarrow> tenant_items t w' = tenant_items t w"
  unfolding tenant_items_def by simp

lemma create_preserves:
  assumes c: "createDependency user data i n w = (Inr x, w')"
    and ok: "tenant_ok t w" and ne: "req_from_id data \<noteq> req_to_id data"
  shows "tenant_ok t w'"
proof -
  from c have cb: "createDependency_callback user data i n w = (Inr x, w')"
    unfolding createDependency_def transaction_Inr .
  note s = createDependency_callback_success [OF cb]
  have items: "tenant_items t w' = tenant_items t w" using s(3) by (rule tenant_items_same)
  note edges = tenant_edges_append [OF s(4), of t]
  show ?thesis
  proof (cases "tenant_id x = t")
    case False
    then show ?thesis using ok edges items unfolding tenant_ok_def by simp
  next
    case True
    then have t: "t = user_tenant_id user" using s(5) by simp
    have e: "tenant_edges t w' = insert (req_from_id data, req_to_id data) (tenant_edges t w)"
      using edges True s(6,7) by simp
    from ok have ac: "acyclic (tenant_edges t w)"
      and field: "Field (tenant_edges t w) \<subseteq> tenant_items t w"
      and card: "card (tenant_items t w) \<le> 21" unfolding tenant_ok_def by simp_all
    have "(req_to_id data, req_from_id data) \<notin> (tenant_edges t w)\<^sup>*"
      using probe_negative_no_path [OF ac field card s(2) [folded t]] ne by simp
    then have "acyclic (tenant_edges t w')" unfolding e using ac by simp
    moreover have "req_from_id data \<in> tenant_items t w" "req_to_id data \<in> tenant_items t w"
      using validateWorkItemsExist_items [OF s(1)] unfolding t by simp_all
    then have "Field (tenant_edges t w') \<subseteq> tenant_items t w'"
      unfolding e items using field by (auto simp: Field_def)
    ultimately show ?thesis unfolding tenant_ok_def items using card by simp
  qed
qed

lemma delete_preserves:
  assumes d: "deleteDependency user i n w = (Inr x, w')" and ok: "tenant_ok t w"
  shows "tenant_ok t w'"
proof -
  from d have cb: "deleteDependency_callback user i n w = (Inr x, w')"
    unfolding deleteDependency_def transaction_Inr .
  note s = deleteDependency_callback_success [OF cb]
  have items: "tenant_items t w' = tenant_items t w" using s(1) by (rule tenant_items_same)
  have sub: "tenant_edges t w' \<subseteq> tenant_edges t w" using s(2) by (rule tenant_edges_mono)
  from ok have ac: "acyclic (tenant_edges t w)"
    and field: "Field (tenant_edges t w) \<subseteq> tenant_items t w"
    and card: "card (tenant_items t w) \<le> 21" unfolding tenant_ok_def by simp_all
  have "acyclic (tenant_edges t w')" using ac sub by (rule acyclic_subset)
  moreover have "Field (tenant_edges t w') \<subseteq> tenant_items t w'"
    unfolding items using field sub by (auto simp: Field_def)
  ultimately show ?thesis unfolding tenant_ok_def items using card by simp
qed

lemma run_calls_preserves:
  "list_all no_self_loop ops \<Longrightarrow> run_calls ops w = Some w' \<Longrightarrow> tenant_ok t w \<Longrightarrow> tenant_ok t w'"
proof (induction ops arbitrary: w)
  case Nil
  then show ?case by simp
next
  case (Cons op ops)
  show ?case
  proof (cases op)
    case (Create user data i n)
    obtain r w1 where r: "createDependency user data i n w = (r, w1)" by (cases "createDependency user data i n w")
    with Cons.prems(2) Create obtain x where x: "r = Inr x" and rest: "run_calls ops w1 = Some w'"
      by (cases r) simp_all
    have "req_from_id data \<noteq> req_to_id data" using Cons.prems(1) Create by simp
    from create_preserves [OF r [unfolded x] Cons.prems(3) this] have "tenant_ok t w1" .
    moreover have "list_all no_self_loop ops" using Cons.prems(1) by simp
    ultimately show ?thesis using Cons.IH rest by blast
  next
    case (Delete user i n)
    obtain r w1 where r: "deleteDependency user i n w = (r, w1)" by (cases "deleteDependency user i n w")
    with Cons.prems(2) Delete obtain x where x: "r = Inr x" and rest: "run_calls ops w1 = Some w'"
      by (cases r) simp_all
    from delete_preserves [OF r [unfolded x] Cons.prems(3)] have "tenant_ok t w1" .
    moreover have "list_all no_self_loop ops" using Cons.prems(1) by simp
    ultimately show ?thesis using Cons.IH rest by blast
  qed
qed

text \<open>
  C1 (as amended): for a tenant with at most 21 work items whose stored edges are
  acyclic and join work items of the tenant, after every sequence of
  \<open>createDependency\<close> calls with \<open>from_id \<noteq> to_id\<close> and \<open>deleteDependency\<close> calls
  that all succeed, the tenant's stored edges are acyclic.
\<close>

theorem acyclic_preserved:
  assumes "card (tenant_items t w) \<le> 21"
    and "acyclic (tenant_edges t w)"
    and "Field (tenant_edges t w) \<subseteq> tenant_items t w"
    and "list_all no_self_loop ops"
    and "run_calls ops w = Some w'"
  shows "acyclic (tenant_edges t w')"
proof -
  have "tenant_ok t w" unfolding tenant_ok_def using assms(1-3) by simp
  from run_calls_preserves [OF assms(4,5) this] show ?thesis unfolding tenant_ok_def by simp
qed


lemma chain_reaches:
  "successively (\<lambda>x y. (x, y) \<in> R) (x # y # xs) \<Longrightarrow> (x, last (y # xs)) \<in> R\<^sup>+"
proof (induction xs arbitrary: x y)
  case Nil
  then show ?case by auto
next
  case (Cons z zs)
  from Cons.prems have xy: "(x, y) \<in> R" and rest: "successively (\<lambda>x y. (x, y) \<in> R) (y # z # zs)"
    by simp_all
  from Cons.IH [OF rest] have "(y, last (z # zs)) \<in> R\<^sup>+" .
  with xy have "(x, last (z # zs)) \<in> R\<^sup>+" by (rule trancl_into_trancl2)
  then show ?case by simp
qed

lemma closed_chain_cyclic:
  "\<not> acyclic (set (zip chain_ids (tl chain_ids) @ [(''v'', ''a'')]))"
proof -
  let ?R = "set (zip chain_ids (tl chain_ids) @ [(''v'', ''a'')])"
  have "successively (\<lambda>x y. (x, y) \<in> ?R) (chain_ids @ [''a''])"
    unfolding chain_ids_def by simp
  then have "(''a'', ''a'') \<in> ?R\<^sup>+"
    using chain_reaches [of ?R "''a''" "''b''" "drop 2 chain_ids @ [''a'']"]
    unfolding chain_ids_def by simp
  then show ?thesis unfolding acyclic_def by blast
qed

text \<open>
  C1 (as stated) fails twice. A first call with \<open>from_id = to_id = A\<close> on a tenant
  without edges is accepted and stores the self-loop A -> A. And in a tenant with 22
  work items, the 21 calls that build the chain a -> b -> ... -> v and the call for
  v -> a all succeed (the probe follows paths of at most 20 edges), which stores a
  cycle.
\<close>

theorem stored_cycles_are_possible:
  "map_option (tenant_edges ''T'')
       (run_calls [Create example_user (example_request ''A'' ''A'') ''id1'' 0]
          (world_of_items [''A'']))
     = Some {(''A'', ''A'')}
   \<and> \<not> acyclic {(''A'', ''A'')}
   \<and> map_option (tenant_edges ''T'') (run_calls chain_calls (world_of_items chain_ids))
     = Some (set (zip chain_ids (tl chain_ids) @ [(''v'', ''a'')]))
   \<and> \<not> acyclic (set (zip chain_ids (tl chain_ids) @ [(''v'', ''a'')]))"
proof -
  have 1: "map_option (tenant_edges ''T'')
       (run_calls [Create example_user (example_request ''A'' ''A'') ''id1'' 0]
          (world_of_items [''A'']))
     = Some {(''A'', ''A'')}"
    by code_simp
  have 2: "\<not> acyclic {(''A'', ''A'')}"
    unfolding acyclic_def by blast
  have 3: "map_option (tenant_edges ''T'') (run_calls chain_calls (world_of_items chain_ids))
     = Some (set (zip chain_ids (tl chain_ids) @ [(''v'', ''a'')]))"
    by code_simp
  from 1 2 3 closed_chain_cyclic show ?thesis by (intro conjI)
qed

lemma world_abc_items: "tenant_items ''T'' world_abc = {''A'', ''B'', ''C''}"
  by (simp add: tenant_items_def example_defs)

lemma world_abc_edges: "tenant_edges ''T'' world_abc = {(''A'', ''B''), (''B'', ''C'')}"
  by (simp add: tenant_edges_def example_defs)

lemma world_abc_acyclic: "acyclic (tenant_edges ''T'' world_abc)"
  unfolding world_abc_edges
proof (rule acyclicI_order)
  fix a b assume "(a, b) \<in> {(''A'', ''B''), (''B'', ''C'')}"
  then show "(if b = ''A'' then 2 else if b = ''B'' then 1 else (0::nat))
           < (if a = ''A'' then 2 else if a = ''B'' then 1 else 0)"
    by auto
qed

theorem acyclic_preserved_witness:
  "\<exists>w'. run_calls [Create example_user (example_request ''A'' ''C'') ''AC'' 1000,
                    Delete example_user ''AB'' 2000] world_abc = Some w'
        \<and> acyclic (tenant_edges ''T'' w')"
proof -
  let ?ops = "[Create example_user (example_request ''A'' ''C'') ''AC'' 1000,
               Delete example_user ''AB'' 2000]"
  have "run_calls ?ops world_abc \<noteq> None" by code_simp
  then obtain w' where r: "run_calls ?ops world_abc = Some w'" by blast
  have c: "card (tenant_items ''T'' world_abc) \<le> 21" unfolding world_abc_items by simp
  have f: "Field (tenant_edges ''T'' world_abc) \<subseteq> tenant_items ''T'' world_abc"
    unfolding world_abc_items world_abc_edges by simp
  have n: "list_all no_self_loop ?ops" by (simp add: example_request_def)
  from acyclic_preserved [OF c world_abc_acyclic f n r] r show ?thesis by blast
qed


end
